theory Spec2Isabelle
  imports Main "HOL-Library.Sublist" "HOL-Library.AList"
begin

section \<open>Platform values: bytes, strings, JSON\<close>

text \<open>
  A transport chunk (\<open>Uint8Array\<close>) is a list of bytes, \<^typ>\<open>char list\<close>.
  A JavaScript string is a sequence of UTF-16 code units; a code unit is kept as the
  natural number below \<open>65536\<close> it denotes. \<open>ustr\<close> turns an ASCII literal
  of the source into such a string.
\<close>

type_synonym bytes = "char list"
type_synonym ustring = "nat list"

definition ustr :: "string \<Rightarrow> ustring" where
  "ustr s = map of_char s"

subsection \<open>\<open>TextDecoder('utf-8')\<close>, called with \<open>stream: true\<close>\<close>

text \<open>
  The decoder of the WHATWG Encoding Standard (non-fatal error mode, \<open>ignoreBOM\<close>
  false). Its state survives between calls of \<open>decode\<close>: the partial code point,
  the number of continuation bytes seen and needed, the bounds on the next continuation
  byte, and whether the first code point (a byte order mark is dropped) has been passed.
\<close>

record text_decoder =
  code_point :: nat
  bytes_seen :: nat
  bytes_needed :: nat
  lower_boundary :: nat
  upper_boundary :: nat
  bom_seen :: bool

definition new_TextDecoder :: text_decoder where
  "new_TextDecoder = \<lparr>code_point = 0, bytes_seen = 0, bytes_needed = 0,
     lower_boundary = 0x80, upper_boundary = 0xBF, bom_seen = False\<rparr>"

definition reset_sequence :: "text_decoder \<Rightarrow> text_decoder" where
  "reset_sequence d = d\<lparr>code_point := 0, bytes_seen := 0, bytes_needed := 0,
     lower_boundary := 0x80, upper_boundary := 0xBF\<rparr>"

text \<open>A byte read when no sequence is open: the lead byte of a sequence, or ASCII.\<close>

definition utf8_lead :: "text_decoder \<Rightarrow> nat \<Rightarrow> text_decoder \<times> nat list" where
  "utf8_lead d b =
     (if b \<le> 0x7F then (d, [b])
      else if 0xC2 \<le> b \<and> b \<le> 0xDF then
        (d\<lparr>bytes_needed := 1, code_point := b mod 0x20\<rparr>, [])
      else if 0xE0 \<le> b \<and> b \<le> 0xEF then
        (d\<lparr>lower_boundary := (if b = 0xE0 then 0xA0 else lower_boundary d),
           upper_boundary := (if b = 0xED then 0x9F else upper_boundary d),
           bytes_needed := 2, code_point := b mod 0x10\<rparr>, [])
      else if 0xF0 \<le> b \<and> b \<le> 0xF4 then
        (d\<lparr>lower_boundary := (if b = 0xF0 then 0x90 else lower_boundary d),
           upper_boundary := (if b = 0xF4 then 0x8F else upper_boundary d),
           bytes_needed := 3, code_point := b mod 0x08\<rparr>, [])
      else (d, [0xFFFD]))"

text \<open>
  The handler for one byte. A byte outside the bounds closes the open sequence with
  U+FFFD and is read again as a lead byte.
\<close>

definition utf8_handler :: "text_decoder \<Rightarrow> nat \<Rightarrow> text_decoder \<times> nat list" where
  "utf8_handler d b =
     (if bytes_needed d = 0 then utf8_lead d b
      else if b < lower_boundary d \<or> upper_boundary d < b then
        (case utf8_lead (reset_sequence d) b of (d', out) \<Rightarrow> (d', 0xFFFD # out))
      else
        (let d1 = d\<lparr>lower_boundary := 0x80, upper_boundary := 0xBF,
                     code_point := code_point d * 0x40 + b mod 0x40,
                     bytes_seen := bytes_seen d + 1\<rparr>
         in if bytes_seen d1 \<noteq> bytes_needed d1 then (d1, [])
            else (reset_sequence d1, [code_point d1])))"

fun run_handler :: "text_decoder \<Rightarrow> bytes \<Rightarrow> text_decoder \<times> nat list" where
  "run_handler d [] = (d, [])"
| "run_handler d (b # bs) =
     (case utf8_handler d (of_char b) of (d1, out) \<Rightarrow>
        (case run_handler d1 bs of (d2, outs) \<Rightarrow> (d2, out @ outs)))"

text \<open>A code point as UTF-16 code units (a surrogate pair above the BMP).\<close>

definition utf16_units :: "nat \<Rightarrow> ustring" where
  "utf16_units cp =
     (if cp < 0x10000 then [cp]
      else [0xD800 + (cp - 0x10000) div 0x400, 0xDC00 + (cp - 0x10000) mod 0x400])"

text \<open>Serialising the decoded code points: the first one is dropped when it is U+FEFF.\<close>

fun serialize :: "text_decoder \<Rightarrow> nat list \<Rightarrow> text_decoder \<times> ustring" where
  "serialize d [] = (d, [])"
| "serialize d (cp # cps) =
     (if bom_seen d then
        (case serialize d cps of (d', s) \<Rightarrow> (d', utf16_units cp @ s))
      else
        (case serialize (d\<lparr>bom_seen := True\<rparr>) cps of (d', s) \<Rightarrow>
           (d', if cp = 0xFEFF then s else utf16_units cp @ s)))"

text \<open>
  \<open>decoder.decode(value, {stream: true})\<close>: the bytes go through the handler, nothing is
  flushed at the end of the chunk, and an unfinished sequence stays in the state.
\<close>

definition decode :: "text_decoder \<Rightarrow> bytes \<Rightarrow> text_decoder \<times> ustring" where
  "decode d bs = (case run_handler d bs of (d1, cps) \<Rightarrow> serialize d1 cps)"

subsection \<open>String methods\<close>

text \<open>
  \<open>WhiteSpace\<close> and \<open>LineTerminator\<close> of ECMAScript: what \<open>trim\<close> strips and
  what \<open>\s\<close> matches.
\<close>

definition is_space :: "nat \<Rightarrow> bool" where
  "is_space c \<longleftrightarrow>
     (0x09 \<le> c \<and> c \<le> 0x0D) \<or> c = 0x20 \<or> c = 0xA0 \<or> c = 0x1680 \<or>
     (0x2000 \<le> c \<and> c \<le> 0x200A) \<or> c = 0x2028 \<or> c = 0x2029 \<or> c = 0x202F \<or>
     c = 0x205F \<or> c = 0x3000 \<or> c = 0xFEFF"

definition trim :: "ustring \<Rightarrow> ustring" where
  "trim s = rev (dropWhile is_space (rev (dropWhile is_space s)))"

definition startsWith :: "ustring \<Rightarrow> ustring \<Rightarrow> bool" where
  "startsWith s p = prefix p s"

text \<open>
  \<open>s.split(sep)\<close> for a non-empty separator: the pieces between the occurrences of
  \<open>sep\<close>, found from the left without overlap. The result is never empty.
\<close>

fun split_on :: "ustring \<Rightarrow> ustring \<Rightarrow> ustring list" where
  "split_on sep [] = [[]]"
| "split_on sep (c # cs) =
     (if prefix sep (c # cs) then [] # split_on sep (drop (length sep - 1) cs)
      else (case split_on sep cs of
              [] \<Rightarrow> [[c]]
            | p # ps \<Rightarrow> (c # p) # ps))"

text \<open>With the empty separator \<open>split\<close> returns the code units one by one.\<close>

definition split :: "ustring \<Rightarrow> ustring \<Rightarrow> ustring list" where
  "split s sep = (if sep = [] then map (\<lambda>c. [c]) s else split_on sep s)"

subsection \<open>\<open>JSON.parse\<close>\<close>

text \<open>
  A parsed JSON value. A number is kept exactly, as sign, decimal mantissa and power of
  ten (the rounding to a double is left to the one place that needs it, \<open>truthy\<close>
  below); an object is the list of its members, a repeated key overwriting the earlier
  value in place. The program reads members by name only, so the order of the list is
  never observed.
\<close>

datatype json =
    JNull
  | JBool bool
  | JNumber bool nat int
  | JString ustring
  | JArray "json list"
  | JObject "(ustring \<times> json) list"

datatype token =
    TLBrace | TRBrace | TLBracket | TRBracket | TColon | TComma
  | TString ustring
  | TNumber bool nat int
  | TTrue | TFalse | TNull

definition is_digit :: "nat \<Rightarrow> bool" where
  "is_digit c \<longleftrightarrow> 0x30 \<le> c \<and> c \<le> 0x39"

definition digits_value :: "ustring \<Rightarrow> nat" where
  "digits_value ds = foldl (\<lambda>a c. a * 10 + (c - 0x30)) 0 ds"

definition hex_digit :: "nat \<Rightarrow> nat option" where
  "hex_digit c =
     (if 0x30 \<le> c \<and> c \<le> 0x39 then Some (c - 0x30)
      else if 0x41 \<le> c \<and> c \<le> 0x46 then Some (c - 0x37)
      else if 0x61 \<le> c \<and> c \<le> 0x66 then Some (c - 0x57)
      else None)"

text \<open>The character after a backslash, other than \<open>u\<close>.\<close>

definition escape_char :: "nat \<Rightarrow> nat option" where
  "escape_char e =
     (if e = 0x22 \<or> e = 0x5C \<or> e = 0x2F then Some e
      else if e = 0x62 then Some 0x08
      else if e = 0x66 then Some 0x0C
      else if e = 0x6E then Some 0x0A
      else if e = 0x72 then Some 0x0D
      else if e = 0x74 then Some 0x09
      else None)"

text \<open>The four hexadecimal digits of a \<open>\u\<close> escape, as the code unit they denote.\<close>

fun hex4 :: "ustring \<Rightarrow> nat option" where
  "hex4 [h1, h2, h3, h4] =
     (case (hex_digit h1, hex_digit h2, hex_digit h3, hex_digit h4) of
        (Some a, Some b, Some c, Some d) \<Rightarrow> Some (((a * 16 + b) * 16 + c) * 16 + d)
      | _ \<Rightarrow> None)"
| "hex4 _ = None"

text \<open>
  The rest of a string literal after its opening quote: the code units it denotes and
  the text after the closing quote. Control characters below U+0020 are not allowed.
\<close>

fun lex_string :: "ustring \<Rightarrow> (ustring \<times> ustring) option" where
  "lex_string [] = None"
| "lex_string (c # cs) =
     (if c = 0x22 then Some ([], cs)
      else if c = 0x5C then
        (case cs of
           [] \<Rightarrow> None
         | e # r \<Rightarrow>
             if e = 0x75 then
               (case hex4 (take 4 r) of
                  None \<Rightarrow> None
                | Some u \<Rightarrow> map_option (apfst (Cons u)) (lex_string (drop 4 r)))
             else
               (case escape_char e of
                  None \<Rightarrow> None
                | Some u \<Rightarrow> map_option (apfst (Cons u)) (lex_string r)))
      else if c < 0x20 then None
      else map_option (apfst (Cons c)) (lex_string cs))"

text \<open>The optional fraction and exponent of a number, each with the text after it.\<close>

fun lex_fraction :: "ustring \<Rightarrow> (ustring \<times> ustring) option" where
  "lex_fraction [] = Some ([], [])"
| "lex_fraction (c # cs) =
     (if c = 0x2E then
        (if takeWhile is_digit cs = [] then None
         else Some (takeWhile is_digit cs, dropWhile is_digit cs))
      else Some ([], c # cs))"

fun lex_sign :: "ustring \<Rightarrow> int \<times> ustring" where
  "lex_sign [] = (1, [])"
| "lex_sign (c # cs) =
     (if c = 0x2B then (1, cs) else if c = 0x2D then (- 1, cs) else (1, c # cs))"

fun lex_exponent :: "ustring \<Rightarrow> (int \<times> ustring) option" where
  "lex_exponent [] = Some (0, [])"
| "lex_exponent (c # cs) =
     (if c = 0x65 \<or> c = 0x45 then
        (case lex_sign cs of (sg, ds) \<Rightarrow>
           if takeWhile is_digit ds = [] then None
           else Some (sg * int (digits_value (takeWhile is_digit ds)), dropWhile is_digit ds))
      else Some (0, c # cs))"

text \<open>
  A number: \<open>-? (0 | [1-9][0-9]*) (. [0-9]+)? ([eE] [+-]? [0-9]+)?\<close>. A leading zero
  followed by a digit is no number (nor the start of any JSON text).
\<close>

definition lex_number :: "ustring \<Rightarrow> (token \<times> ustring) option" where
  "lex_number s =
     (let neg = prefix [0x2D] s;
          s1 = (if neg then drop 1 s else s);
          ip = takeWhile is_digit s1
      in if ip = [] \<or> (prefix [0x30] ip \<and> 1 < length ip) then None
         else
           (case lex_fraction (dropWhile is_digit s1) of
              None \<Rightarrow> None
            | Some (fp, s2) \<Rightarrow>
                (case lex_exponent s2 of
                   None \<Rightarrow> None
                 | Some (ex, s3) \<Rightarrow>
                     Some (TNumber neg (digits_value (ip @ fp)) (ex - int (length fp)), s3))))"

lemma lex_string_shorter: "lex_string cs = Some (s, r) \<Longrightarrow> length r < length cs"
proof (induction cs arbitrary: s r rule: lex_string.induct)
  case 1
  then show ?case by simp
next
  case (2 c cs)
  show ?case
  proof (cases "c = 0x22")
    case True
    with "2.prems" show ?thesis by simp
  next
    case q: False
    show ?thesis
    proof (cases "c = 0x5C")
      case True
      with q "2.prems" obtain e r0 where cs: "cs = e # r0" by (cases cs) auto
      show ?thesis
      proof (cases "e = 0x75")
        case u: True
        with True q cs "2.prems" obtain v s' where
          "hex4 (take 4 r0) = Some v" and l: "lex_string (drop 4 r0) = Some (s', r)"
          by (auto split: option.splits)
        then have "length r < length (drop 4 r0)"
          using "2.IH"(1) [OF q True cs u] by blast
        then show ?thesis using cs by simp
      next
        case nu: False
        with True q cs "2.prems" obtain v s' where
          ec: "escape_char e = Some v" and l: "lex_string r0 = Some (s', r)"
          by (auto split: option.splits)
        then have "length r < length r0"
          using "2.IH"(2) [OF q True cs nu] by blast
        then show ?thesis using cs by simp
      qed
    next
      case False
      with q "2.prems" obtain s' where l: "lex_string cs = Some (s', r)" and "\<not> c < 0x20"
        by (auto split: if_splits)
      then have "length r < length cs" using "2.IH"(3) [OF q False] by blast
      then show ?thesis by simp
    qed
  qed
qed

lemma lex_fraction_shorter: "lex_fraction s = Some (fp, r) \<Longrightarrow> length r \<le> length s"
  by (cases s) (auto split: if_splits intro: le_SucI length_dropWhile_le)

lemma lex_sign_shorter: "lex_sign s = (sg, r) \<Longrightarrow> length r \<le> length s"
  by (cases s) (auto split: if_splits)

lemma lex_exponent_shorter: "lex_exponent s = Some (ex, r) \<Longrightarrow> length r \<le> length s"
proof (cases s)
  case Nil
  assume "lex_exponent s = Some (ex, r)"
  with Nil show ?thesis by simp
next
  case (Cons c cs)
  assume a: "lex_exponent s = Some (ex, r)"
  show ?thesis
  proof (cases "c = 0x65 \<or> c = 0x45")
    case True
    obtain sg ds where sd: "lex_sign cs = (sg, ds)" by (cases "lex_sign cs")
    from a Cons True sd have "r = dropWhile is_digit ds"
      by (auto split: if_splits)
    moreover have "length (dropWhile is_digit ds) \<le> length ds" by (rule length_dropWhile_le)
    moreover have "length ds \<le> length cs" using sd by (rule lex_sign_shorter)
    ultimately show ?thesis using Cons by simp
  next
    case False
    with a Cons show ?thesis by auto
  qed
qed

lemma dropWhile_shorter: "takeWhile P xs \<noteq> [] \<Longrightarrow> length (dropWhile P xs) < length xs"
  by (cases xs) (auto split: if_splits intro: le_imp_less_Suc length_dropWhile_le)

lemma lex_number_shorter:
  assumes "lex_number (c # cs) = Some (t, r)"
  shows "length r \<le> length cs"
proof -
  define s1 where "s1 = (if prefix [0x2D] (c # cs) then drop 1 (c # cs) else c # cs)"
  have eq: "lex_number (c # cs) =
     (if takeWhile is_digit s1 = [] \<or>
         (prefix [0x30] (takeWhile is_digit s1) \<and> 1 < length (takeWhile is_digit s1))
      then None
      else
        (case lex_fraction (dropWhile is_digit s1) of
           None \<Rightarrow> None
         | Some (fp, s2) \<Rightarrow>
             (case lex_exponent s2 of
                None \<Rightarrow> None
              | Some (ex, s3) \<Rightarrow>
                  Some (TNumber (prefix [0x2D] (c # cs))
                          (digits_value (takeWhile is_digit s1 @ fp))
                          (ex - int (length fp)), s3))))"
    unfolding lex_number_def Let_def s1_def by (rule refl)
  from assms have ne: "takeWhile is_digit s1 \<noteq> []"
    unfolding eq by (auto split: if_splits)
  from assms obtain fp s2 ex where
    f: "lex_fraction (dropWhile is_digit s1) = Some (fp, s2)" and
    e: "lex_exponent s2 = Some (ex, r)"
    unfolding eq by (auto split: if_splits option.splits)
  have "length (dropWhile is_digit s1) < length s1"
    using ne by (rule dropWhile_shorter)
  moreover have "length s1 \<le> Suc (length cs)" by (simp add: s1_def)
  moreover have "length s2 \<le> length (dropWhile is_digit s1)" using f by (rule lex_fraction_shorter)
  moreover have "length r \<le> length s2" using e by (rule lex_exponent_shorter)
  ultimately show ?thesis by linarith
qed

text \<open>
  The tokens of a JSON text; white space between them is tab, line feed, carriage
  return and space only.
\<close>

function lex :: "ustring \<Rightarrow> token list option" where
  "lex [] = Some []"
| "lex (c # cs) =
     (if c = 0x20 \<or> c = 0x09 \<or> c = 0x0A \<or> c = 0x0D then lex cs
      else if c = 0x7B then map_option (Cons TLBrace) (lex cs)
      else if c = 0x7D then map_option (Cons TRBrace) (lex cs)
      else if c = 0x5B then map_option (Cons TLBracket) (lex cs)
      else if c = 0x5D then map_option (Cons TRBracket) (lex cs)
      else if c = 0x3A then map_option (Cons TColon) (lex cs)
      else if c = 0x2C then map_option (Cons TComma) (lex cs)
      else if c = 0x22 then
        (case lex_string cs of
           None \<Rightarrow> None
         | Some (s, r) \<Rightarrow> map_option (Cons (TString s)) (lex r))
      else if c = 0x2D \<or> is_digit c then
        (case lex_number (c # cs) of
           None \<Rightarrow> None
         | Some (t, r) \<Rightarrow> map_option (Cons t) (lex r))
      else if prefix (ustr ''true'') (c # cs) then map_option (Cons TTrue) (lex (drop 3 cs))
      else if prefix (ustr ''false'') (c # cs) then map_option (Cons TFalse) (lex (drop 4 cs))
      else if prefix (ustr ''null'') (c # cs) then map_option (Cons TNull) (lex (drop 3 cs))
      else None)"
  by pat_completeness auto
termination
  by (relation "measure length")
     (auto dest: lex_string_shorter lex_number_shorter)

text \<open>
  The parser reads the tokens from left to right and keeps the open arrays and objects
  on a stack: an array with the elements read so far, an object with its members so far
  and the key whose value is being read.
\<close>

datatype frame =
    FArr "json list"
  | FObj "(ustring \<times> json) list" ustring

datatype pstate =
    PValue "frame list"
  | PFirstElem "frame list"
  | PFirstKey "frame list"
  | PKey "(ustring \<times> json) list" "frame list"
  | PColon "(ustring \<times> json) list" ustring "frame list"
  | PAfterElem "json list" "frame list"
  | PAfterMember "(ustring \<times> json) list" "frame list"
  | PDone json

text \<open>A complete value goes to the innermost open container, or ends the text.\<close>

fun deliver :: "json \<Rightarrow> frame list \<Rightarrow> pstate" where
  "deliver v [] = PDone v"
| "deliver v (FArr es # st) = PAfterElem (es @ [v]) st"
| "deliver v (FObj ms k # st) = PAfterMember (AList.update k v ms) st"

fun start_value :: "frame list \<Rightarrow> token \<Rightarrow> pstate option" where
  "start_value st TLBracket = Some (PFirstElem st)"
| "start_value st TLBrace = Some (PFirstKey st)"
| "start_value st (TString s) = Some (deliver (JString s) st)"
| "start_value st (TNumber neg m e) = Some (deliver (JNumber neg m e) st)"
| "start_value st TTrue = Some (deliver (JBool True) st)"
| "start_value st TFalse = Some (deliver (JBool False) st)"
| "start_value st TNull = Some (deliver JNull st)"
| "start_value st _ = None"

fun pstep :: "pstate \<Rightarrow> token \<Rightarrow> pstate option" where
  "pstep (PValue st) t = start_value st t"
| "pstep (PFirstElem st) t =
     (if t = TRBracket then Some (deliver (JArray []) st) else start_value (FArr [] # st) t)"
| "pstep (PFirstKey st) t =
     (case t of
        TRBrace \<Rightarrow> Some (deliver (JObject []) st)
      | TString k \<Rightarrow> Some (PColon [] k st)
      | _ \<Rightarrow> None)"
| "pstep (PKey ms st) t = (case t of TString k \<Rightarrow> Some (PColon ms k st) | _ \<Rightarrow> None)"
| "pstep (PColon ms k st) t = (if t = TColon then Some (PValue (FObj ms k # st)) else None)"
| "pstep (PAfterElem es st) t =
     (case t of
        TComma \<Rightarrow> Some (PValue (FArr es # st))
      | TRBracket \<Rightarrow> Some (deliver (JArray es) st)
      | _ \<Rightarrow> None)"
| "pstep (PAfterMember ms st) t =
     (case t of
        TComma \<Rightarrow> Some (PKey ms st)
      | TRBrace \<Rightarrow> Some (deliver (JObject ms) st)
      | _ \<Rightarrow> None)"
| "pstep (PDone v) t = None"

fun parse_tokens :: "pstate \<Rightarrow> token list \<Rightarrow> json option" where
  "parse_tokens (PDone v) [] = Some v"
| "parse_tokens p [] = None"
| "parse_tokens p (t # ts) = (case pstep p t of None \<Rightarrow> None | Some p' \<Rightarrow> parse_tokens p' ts)"

text \<open>
  \<open>JSON.parse(text)\<close>: \<open>None\<close> stands for the \<open>SyntaxError\<close> it throws.
\<close>

definition JSON_parse :: "ustring \<Rightarrow> json option" where
  "JSON_parse s = (case lex s of None \<Rightarrow> None | Some ts \<Rightarrow> parse_tokens (PValue []) ts)"

section \<open>The agent stream: \<open>AgentBox.startAgent\<close>\<close>

text \<open>
  The component state of \<open>AgentBox\<close> (\<open>useState\<close>): the prompt, the streaming
  flag and the event log. An event is the value the code appends: an object parsed from a
  frame, \<open>{type: 'done'}\<close> or \<open>{type: 'error', value: e.message}\<close>.
\<close>

record agent_state =
  prompt :: ustring
  streaming :: bool
  events :: "json list"

definition done_event :: json where
  "done_event = JObject [(ustr ''type'', JString (ustr ''done''))]"

definition error_event :: "ustring \<Rightarrow> json" where
  "error_event msg = JObject [(ustr ''type'', JString (ustr ''error'')), (ustr ''value'', JString msg)]"

text \<open>What the run asks of the network: the request, and each \<open>reader.read()\<close>.\<close>

datatype effect =
    FetchAgent ustring nat
  | ReaderRead

subsection \<open>One frame\<close>

text \<open>
  \<open>chunk.trim().split('\n').find(l => l.startsWith('data:'))\<close>: the first line of the
  frame that starts with the data marker, \<open>None\<close> for \<open>undefined\<close>.
\<close>

definition data_line :: "ustring \<Rightarrow> ustring option" where
  "data_line chunk =
     find (\<lambda>l. startsWith l (ustr ''data:'')) (split (trim chunk) (ustr ''\<newline>''))"

text \<open>\<open>line.replace(/^data:\s*/, '')\<close>\<close>

definition strip_marker :: "ustring \<Rightarrow> ustring" where
  "strip_marker line =
     (if prefix (ustr ''data:'') line then dropWhile is_space (drop 5 line) else line)"

text \<open>
  The \<open>for (const chunk of parts)\<close> loop. A frame without a data line is skipped
  (\<open>continue\<close>); the sentinel appends \<open>done\<close> and leaves the loop (\<open>break\<close>), so
  the frames after it in \<open>parts\<close> are not looked at; a payload \<open>JSON.parse\<close> rejects
  appends nothing (the empty \<open>catch\<close>).
\<close>

fun process_parts :: "ustring list \<Rightarrow> json list \<Rightarrow> json list" where
  "process_parts [] evs = evs"
| "process_parts (chunk # parts) evs =
     (case data_line chunk of
        None \<Rightarrow> process_parts parts evs
      | Some line \<Rightarrow>
          (let payload = strip_marker line
           in if payload = ustr ''[DONE]'' then evs @ [done_event]
              else (case JSON_parse payload of
                      Some obj \<Rightarrow> process_parts parts (evs @ [obj])
                    | None \<Rightarrow> process_parts parts evs)))"

subsection \<open>The read loop\<close>

text \<open>The loop's local variables: the decoder and the pending remainder.\<close>

record reader_vars =
  decoder :: text_decoder
  buffer :: ustring

definition new_reader :: reader_vars where
  "new_reader = \<lparr>decoder = new_TextDecoder, buffer = []\<rparr>"

text \<open>
  One iteration with a chunk read: decode and append to the buffer, split on the blank
  line, keep the last piece (\<open>parts.pop() || ''\<close>) as the new buffer and process the
  others.
\<close>

definition read_chunk :: "reader_vars \<Rightarrow> bytes \<Rightarrow> json list \<Rightarrow> reader_vars \<times> json list" where
  "read_chunk v bs evs =
     (case decode (decoder v) bs of (d, txt) \<Rightarrow>
        (let parts = split (buffer v @ txt) (ustr ''\<newline>\<newline>'')
         in (\<lparr>decoder = d, buffer = (if parts = [] then [] else last parts)\<rparr>,
             process_parts (butlast parts) evs)))"

text \<open>
  The body of the response as the reader delivers it: the chunks in order, and then
  either the end of the data (\<open>done: true\<close>) or a rejected read (a transport failure, or
  the abort signal of \<open>stopAgent\<close>) with the message of its error.
\<close>

datatype ending = Closed | Failed ustring

record body_stream =
  chunks :: "bytes list"
  ending :: ending

text \<open>
  \<open>while (true)\<close>: the result is the message of the error thrown out of the loop, if
  any, the event log, and the reads made.
\<close>

fun read_loop ::
  "reader_vars \<Rightarrow> bytes list \<Rightarrow> ending \<Rightarrow> json list \<Rightarrow> ustring option \<times> json list \<times> effect list" where
  "read_loop v [] Closed evs = (None, evs, [ReaderRead])"
| "read_loop v [] (Failed msg) evs = (Some msg, evs, [ReaderRead])"
| "read_loop v (bs # rest) e evs =
     (case read_chunk v bs evs of (v', evs') \<Rightarrow>
        (case read_loop v' rest e evs' of (thrown, evs'', reads) \<Rightarrow>
           (thrown, evs'', ReaderRead # reads)))"

subsection \<open>\<open>startAgent\<close>\<close>

text \<open>
  What \<open>fetch\<close> gives: a rejection with its message, or a response with its \<open>ok\<close>
  flag and its body (\<open>None\<close> for a null \<open>res.body\<close>).
\<close>

datatype agent_response =
    FetchRejected ustring
  | Response bool "body_stream option"

text \<open>The \<open>catch\<close> and \<open>finally\<close> blocks.\<close>

definition catch_error :: "agent_state \<Rightarrow> ustring \<Rightarrow> agent_state" where
  "catch_error st msg = st\<lparr>events := events st @ [error_event msg], streaming := False\<rparr>"

definition startAgent :: "agent_state \<Rightarrow> agent_response \<Rightarrow> agent_state \<times> effect list" where
  "startAgent st resp =
     (if trim (prompt st) = [] then (st, [])
      else
        (let st1 = st\<lparr>events := [], streaming := True\<rparr>;
             request = FetchAgent (prompt st) 5
         in case resp of
              FetchRejected msg \<Rightarrow> (catch_error st1 msg, [request])
            | Response ok body \<Rightarrow>
                (case body of
                   None \<Rightarrow> (catch_error st1 (ustr ''Failed to start stream''), [request])
                 | Some b \<Rightarrow>
                     if \<not> ok then (catch_error st1 (ustr ''Failed to start stream''), [request])
                     else
                       (case read_loop new_reader (chunks b) (ending b) (events st1) of
                          (None, evs, reads) \<Rightarrow>
                            (st1\<lparr>events := evs, streaming := False\<rparr>, request # reads)
                        | (Some msg, evs, reads) \<Rightarrow>
                            (catch_error (st1\<lparr>events := evs\<rparr>) msg, request # reads)))))"

section \<open>The upload queue: \<open>App.handleFiles\<close>\<close>

text \<open>
  A \<open>File\<close> object is known by its reference: \<open>u.file === item.file\<close> compares
  references. An upload item is \<open>{file, status}\<close>.
\<close>

type_synonym file_ref = nat

datatype status = Queued | Uploading | Done | Error

record upload_item =
  "file" :: file_ref
  status :: status

text \<open>
  What one \<open>fetch\<close> of a JSON endpoint gives: a rejection with its message, or a
  response with its \<open>ok\<close> flag and what \<open>res.json()\<close> settles to (\<open>Inl\<close> the message
  when it rejects).
\<close>

datatype http_response =
    Rejected ustring
  | Resolved bool "ustring + json"

text \<open>
  The \<open>try\<close> block of one upload reaches \<open>status: 'done'\<close> when the fetch resolves,
  \<open>res.ok\<close> holds and \<open>res.json()\<close> resolves; everything else lands in the \<open>catch\<close>.
\<close>

fun upload_succeeds :: "http_response \<Rightarrow> bool" where
  "upload_succeeds (Rejected msg) = False"
| "upload_succeeds (Resolved ok (Inl msg)) = False"
| "upload_succeeds (Resolved ok (Inr data)) = ok"

definition outcome_status :: "http_response \<Rightarrow> status" where
  "outcome_status r = (if upload_succeeds r then Done else Error)"

text \<open>\<open>prev.map(u => u.file === item.file ? { ...u, status: s } : u)\<close>\<close>

definition set_status :: "file_ref \<Rightarrow> status \<Rightarrow> upload_item list \<Rightarrow> upload_item list" where
  "set_status f s prev = map (\<lambda>u. if file u = f then u\<lparr>status := s\<rparr> else u) prev"

text \<open>
  What a run does, in order: every \<open>setUploads\<close> with the list it produces, and every
  request posted to \<open>/ingest\<close> with its file and title.
\<close>

datatype upload_step =
    SetUploads "upload_item list"
  | Post file_ref ustring

text \<open>
  The \<open>for (const item of items)\<close> loop. \<open>name\<close> gives \<open>file.name\<close>; \<open>server i\<close> is
  what the \<open>i\<close>-th request of the run comes back with. Each \<open>await\<close> is passed before
  the next statement runs. The run is taken on its own: no other call changes the list
  between its updates.
\<close>

fun upload_loop ::
  "(file_ref \<Rightarrow> ustring) \<Rightarrow> (nat \<Rightarrow> http_response) \<Rightarrow> nat \<Rightarrow> upload_item list \<Rightarrow>
   upload_item list \<Rightarrow> upload_item list \<times> upload_step list" where
  "upload_loop name server i [] ups = (ups, [])"
| "upload_loop name server i (item # items) ups =
     (let ups1 = set_status (file item) Uploading ups;
          ups2 = set_status (file item) (outcome_status (server i)) ups1
      in case upload_loop name server (Suc i) items ups2 of
           (ups', steps) \<Rightarrow>
             (ups', SetUploads ups1 # Post (file item) (name (file item)) # SetUploads ups2 # steps))"

definition new_item :: "file_ref \<Rightarrow> upload_item" where
  "new_item f = \<lparr>file = f, status = Queued\<rparr>"

text \<open>
  \<open>handleFiles(files)\<close>: the new items go in front of the list
  (\<open>[...items, ...prev]\<close>), then the loop runs over them.
\<close>

definition handleFiles ::
  "(file_ref \<Rightarrow> ustring) \<Rightarrow> (nat \<Rightarrow> http_response) \<Rightarrow> file_ref list \<Rightarrow> upload_item list \<Rightarrow>
   upload_item list \<times> upload_step list" where
  "handleFiles name server files prev =
     (let items = map new_item files;
          ups0 = items @ prev
      in case upload_loop name server 0 items ups0 of
           (ups', steps) \<Rightarrow> (ups', SetUploads ups0 # steps))"

section \<open>The query client: \<open>App.runQuery\<close>\<close>

record query_state =
  queryLoading :: bool
  results :: json

text \<open>
  A number is falsy when it is zero as an IEEE double: a literal \<open>m * 10^e\<close> rounds to
  zero exactly when it is at most \<open>2^-1075\<close>.
\<close>

definition number_is_zero :: "nat \<Rightarrow> int \<Rightarrow> bool" where
  "number_is_zero m e = (if 0 \<le> e then m = 0 else int m * 2 ^ 1075 \<le> 10 ^ nat (- e))"

fun truthy :: "json \<Rightarrow> bool" where
  "truthy JNull = False"
| "truthy (JBool b) = b"
| "truthy (JNumber neg m e) = (\<not> number_is_zero m e)"
| "truthy (JString s) = (s \<noteq> [])"
| "truthy (JArray vs) = True"
| "truthy (JObject ms) = True"

text \<open>
  \<open>data.results\<close>: a \<open>TypeError\<close> (\<open>Inl\<close>) when \<open>data\<close> is \<open>null\<close>, the member of an
  object, and \<open>undefined\<close> (\<open>None\<close>) otherwise.
\<close>

datatype diagnostic = FetchFailed ustring | JsonFailed ustring | NullData

fun get_results :: "json \<Rightarrow> diagnostic + json option" where
  "get_results JNull = Inl NullData"
| "get_results (JObject ms) = Inr (map_of ms (ustr ''results''))"
| "get_results data = Inr None"

text \<open>\<open>data.results || []\<close>\<close>

fun or_empty :: "json option \<Rightarrow> json" where
  "or_empty None = JArray []"
| "or_empty (Some v) = (if truthy v then v else JArray [])"

datatype query_effect =
    FetchQuery ustring nat
  | ConsoleError diagnostic

text \<open>
  \<open>runQuery(q)\<close>: the results are cleared and the loading flag set before the request;
  the \<open>catch\<close> only logs; the \<open>finally\<close> clears the flag. The \<open>ok\<close> flag of the
  response is not looked at.
\<close>

definition runQuery ::
  "ustring \<Rightarrow> http_response \<Rightarrow> query_state \<Rightarrow> query_state \<times> query_effect list" where
  "runQuery q resp st =
     (let st1 = st\<lparr>queryLoading := True, results := JArray []\<rparr>;
          request = FetchQuery q 5
      in case resp of
           Rejected msg \<Rightarrow>
             (st1\<lparr>queryLoading := False\<rparr>, [request, ConsoleError (FetchFailed msg)])
         | Resolved ok body \<Rightarrow>
             (case body of
                Inl msg \<Rightarrow>
                  (st1\<lparr>queryLoading := False\<rparr>, [request, ConsoleError (JsonFailed msg)])
              | Inr data \<Rightarrow>
                  (case get_results data of
                     Inl err \<Rightarrow> (st1\<lparr>queryLoading := False\<rparr>, [request, ConsoleError err])
                   | Inr r \<Rightarrow> (st1\<lparr>results := or_empty r, queryLoading := False\<rparr>, [request]))))"

section \<open>Notions the statements use\<close>

subsection \<open>Frames of a stream\<close>

text \<open>
  Notions the statements below use. A frame carries the sentinel when its data line has
  the payload \<open>[DONE]\<close>; \<open>parse_throws\<close> holds of a frame when its data line has
  another payload and \<open>JSON.parse\<close> throws on it (valid JSON that is no object, such as
  \<open>null\<close> or \<open>42\<close>, does not throw). The complete frames of a text are the pieces of its split on the
  blank line but the last; the text of a stream is what a fresh decoder makes of its bytes.
\<close>

definition is_sentinel :: "ustring \<Rightarrow> bool" where
  "is_sentinel chunk =
     (case data_line chunk of
        None \<Rightarrow> False
      | Some line \<Rightarrow> strip_marker line = ustr ''[DONE]'')"

definition parse_throws :: "ustring \<Rightarrow> bool" where
  "parse_throws chunk =
     (case data_line chunk of
        None \<Rightarrow> False
      | Some line \<Rightarrow>
          strip_marker line \<noteq> ustr ''[DONE]'' \<and> JSON_parse (strip_marker line) = None)"

definition frames_of :: "ustring \<Rightarrow> ustring list" where
  "frames_of txt = butlast (split txt (ustr ''\<newline>\<newline>''))"

definition stream_text :: "bytes \<Rightarrow> ustring" where
  "stream_text bs = snd (decode new_TextDecoder bs)"

text \<open>
  A stream is sentinel-terminated when no complete frame but the last one carries the
  sentinel: the sentinel, if the stream has one, ends it.
\<close>

definition sentinel_terminated :: "bytes \<Rightarrow> bool" where
  "sentinel_terminated bs = (\<not> list_ex is_sentinel (butlast (frames_of (stream_text bs))))"

text \<open>The chunks of a body fed to the loop's variables one after the other.\<close>

fun feed :: "reader_vars \<Rightarrow> bytes list \<Rightarrow> json list \<Rightarrow> reader_vars \<times> json list" where
  "feed v [] evs = (v, evs)"
| "feed v (bs # rest) evs = (case read_chunk v bs evs of (v', evs') \<Rightarrow> feed v' rest evs')"

subsection \<open>The sequential run of a batch\<close>

text \<open>
  What the statements about a batch compare the loop with. First the status an item is
  to end with, by what its request came back with: \<open>error\<close> on a transport failure (the
  fetch is rejected), on a non-success response and on a body that is no JSON,
  \<open>done\<close> on a success response with a JSON body. Then the steps of a strictly
  sequential run. \<open>fin\<close> holds the items already settled, \<open>f # fs\<close> the files still
  waiting, \<open>i\<close> the number of the next request. The item of \<open>f\<close> becomes \<open>uploading\<close>,
  its one request is posted, then it takes the status of its own outcome, and only then
  the next file is looked at; the items behind it stay \<open>queued\<close> and the settled ones
  keep what they have.
\<close>

fun expected_status :: "http_response \<Rightarrow> status" where
  "expected_status (Rejected msg) = Error"
| "expected_status (Resolved False body) = Error"
| "expected_status (Resolved True (Inl msg)) = Error"
| "expected_status (Resolved True (Inr data)) = Done"

fun sequential_steps ::
  "(file_ref \<Rightarrow> ustring) \<Rightarrow> (nat \<Rightarrow> http_response) \<Rightarrow> nat \<Rightarrow> upload_item list \<Rightarrow>
   file_ref list \<Rightarrow> upload_item list \<Rightarrow> upload_step list" where
  "sequential_steps name server i fin [] prev = []"
| "sequential_steps name server i fin (f # fs) prev =
     SetUploads (fin @ \<lparr>file = f, status = Uploading\<rparr> # map (\<lambda>g. \<lparr>file = g, status = Queued\<rparr>) fs @ prev) #
     Post f (name f) #
     SetUploads (fin @ \<lparr>file = f, status = expected_status (server i)\<rparr> # map (\<lambda>g. \<lparr>file = g, status = Queued\<rparr>) fs @ prev) #
     sequential_steps name server (Suc i)
       (fin @ [\<lparr>file = f, status = expected_status (server i)\<rparr>]) fs prev"

text \<open>The items of the files \<open>fs\<close>, each with the status of its own request, from number \<open>i\<close> on.\<close>

fun settled :: "(nat \<Rightarrow> http_response) \<Rightarrow> nat \<Rightarrow> file_ref list \<Rightarrow> upload_item list" where
  "settled server i [] = []"
| "settled server i (f # fs) =
     \<lparr>file = f, status = expected_status (server i)\<rparr> # settled server (Suc i) fs"

fun is_post :: "upload_step \<Rightarrow> bool" where
  "is_post (Post f t) = True"
| "is_post (SetUploads ups) = False"

subsection \<open>Entries that hold one file\<close>

text \<open>All the entries of a list that hold the file \<open>g\<close> have one status.\<close>

definition shared_status :: "upload_item list \<Rightarrow> file_ref \<Rightarrow> bool" where
  "shared_status ups g = (\<exists>t. list_all (\<lambda>u. file u \<noteq> g \<or> status u = t) ups)"

section \<open>Properties of the platform functions\<close>

subsection \<open>Decoding is a state machine over the bytes\<close>

lemma utf8_lead_bom:
  "utf8_lead (d\<lparr>bom_seen := x\<rparr>) b = ((fst (utf8_lead d b))\<lparr>bom_seen := x\<rparr>, snd (utf8_lead d b))"
  by (simp add: utf8_lead_def)

lemma reset_sequence_bom:
  "reset_sequence (d\<lparr>bom_seen := x\<rparr>) = (reset_sequence d)\<lparr>bom_seen := x\<rparr>"
  by (simp add: reset_sequence_def)

lemma utf8_handler_bom:
  "utf8_handler (d\<lparr>bom_seen := x\<rparr>) b =
     ((fst (utf8_handler d b))\<lparr>bom_seen := x\<rparr>, snd (utf8_handler d b))"
  by (simp add: utf8_handler_def utf8_lead_bom reset_sequence_bom Let_def case_prod_beta)
     (simp add: reset_sequence_def)

lemma run_handler_bom:
  "run_handler (d\<lparr>bom_seen := x\<rparr>) bs =
     ((fst (run_handler d bs))\<lparr>bom_seen := x\<rparr>, snd (run_handler d bs))"
proof (induction bs arbitrary: d)
  case Nil
  show ?case by simp
next
  case (Cons b bs)
  show ?case
    by (simp add: utf8_handler_bom Cons.IH case_prod_beta)
qed

lemma utf8_handler_keeps_bom: "bom_seen (fst (utf8_handler d b)) = bom_seen d"
  by (simp add: utf8_handler_def utf8_lead_def reset_sequence_def Let_def case_prod_beta)

lemma run_handler_keeps_bom: "bom_seen (fst (run_handler d bs)) = bom_seen d"
  by (induction bs arbitrary: d) (simp_all add: case_prod_beta utf8_handler_keeps_bom)

lemma run_handler_append:
  "run_handler d (as @ bs) =
     (fst (run_handler (fst (run_handler d as)) bs),
      snd (run_handler d as) @ snd (run_handler (fst (run_handler d as)) bs))"
  by (induction as arbitrary: d) (simp_all add: case_prod_beta)

lemma serialize_append:
  "serialize d (as @ bs) =
     (fst (serialize (fst (serialize d as)) bs),
      snd (serialize d as) @ snd (serialize (fst (serialize d as)) bs))"
  by (induction as arbitrary: d) (simp_all add: case_prod_beta)

text \<open>Serialising changes nothing of the state but the byte order mark flag.\<close>

lemma serialize_state:
  "fst (serialize d cps) = d\<lparr>bom_seen := bom_seen d \<or> cps \<noteq> []\<rparr>"
  by (induction cps arbitrary: d) (simp_all add: case_prod_beta)

lemma serialize_text:
  "bom_seen d = bom_seen d' \<Longrightarrow> snd (serialize d cps) = snd (serialize d' cps)"
proof (induction cps arbitrary: d d')
  case Nil
  show ?case by simp
next
  case (Cons cp cps)
  show ?case
  proof (cases "bom_seen d")
    case True
    with Cons.prems have "bom_seen d'" by simp
    with True Cons.IH [of d d'] show ?thesis by (simp add: case_prod_beta)
  next
    case False
    with Cons.prems have "\<not> bom_seen d'" by simp
    with False Cons.IH [of "d\<lparr>bom_seen := True\<rparr>" "d'\<lparr>bom_seen := True\<rparr>"]
    show ?thesis by (simp add: case_prod_beta)
  qed
qed

text \<open>
  Decoding two chunks one after the other gives the text of decoding them as one, and
  leaves the decoder in the same state.
\<close>

lemma decode_append:
  "decode d (as @ bs) =
     (fst (decode (fst (decode d as)) bs),
      snd (decode d as) @ snd (decode (fst (decode d as)) bs))"
proof -
  define h1 where "h1 = fst (run_handler d as)"
  define o1 where "o1 = snd (run_handler d as)"
  define h2 where "h2 = fst (run_handler h1 bs)"
  define o2 where "o2 = snd (run_handler h1 bs)"
  define x where "x = (bom_seen h1 \<or> o1 \<noteq> [])"
  have whole: "decode d (as @ bs) = serialize h2 (o1 @ o2)"
    by (simp add: decode_def run_handler_append case_prod_beta h1_def o1_def h2_def o2_def)
  have first: "decode d as = serialize h1 o1"
    by (simp add: decode_def case_prod_beta h1_def o1_def)
  have st1: "fst (serialize h1 o1) = h1\<lparr>bom_seen := x\<rparr>"
    by (simp add: serialize_state x_def)
  have second: "decode (h1\<lparr>bom_seen := x\<rparr>) bs = serialize (h2\<lparr>bom_seen := x\<rparr>) o2"
    by (simp add: decode_def run_handler_bom case_prod_beta h2_def o2_def)
  have bh: "bom_seen h2 = bom_seen h1"
    by (simp add: h2_def run_handler_keeps_bom)
  have t1: "snd (serialize h2 o1) = snd (serialize h1 o1)"
    using bh by (rule serialize_text)
  have f1: "fst (serialize h2 o1) = h2\<lparr>bom_seen := x\<rparr>"
    by (simp add: serialize_state x_def bh)
  show ?thesis
    by (simp add: whole first st1 second serialize_append t1 f1)
qed

lemma decode_Nil: "decode d [] = (d, [])"
  by (simp add: decode_def)

subsection \<open>Splitting on a separator\<close>

lemma split_on_not_Nil: "split_on sep s \<noteq> []"
  by (cases s) (simp_all split: list.splits)

text \<open>A text with no occurrence of the separator is its own single piece.\<close>

lemma split_on_single: "split_on sep s = [r] \<Longrightarrow> r = s"
proof (induction sep s arbitrary: r rule: split_on.induct)
  case (1 sep)
  then show ?case by simp
next
  case (2 sep c cs)
  show ?case
  proof (cases "prefix sep (c # cs)")
    case True
    with "2.prems" show ?thesis by (simp add: split_on_not_Nil)
  next
    case False
    obtain p ps where pp: "split_on sep cs = p # ps"
      using split_on_not_Nil [of sep cs] by (cases "split_on sep cs") auto
    with False "2.prems" have "ps = []" and r: "r = c # p" by auto
    with pp have "split_on sep cs = [p]" by simp
    then have "p = cs" using "2.IH"(2) [OF False] by blast
    with r show ?thesis by simp
  qed
qed

lemma split_on_short: "length s < length sep \<Longrightarrow> split_on sep s = [s]"
proof (induction s)
  case Nil
  show ?case by simp
next
  case (Cons c cs)
  then have "\<not> prefix sep (c # cs)" by (auto dest: prefix_length_le)
  moreover from Cons have "split_on sep cs = [cs]" by simp
  ultimately show ?case by simp
qed

text \<open>
  The pieces closed in a prefix of a text are pieces of the whole text: splitting the
  text is splitting the prefix, and then going on from its last piece.
\<close>

lemma split_on_append:
  "split_on sep (B @ C) = butlast (split_on sep B) @ split_on sep (last (split_on sep B) @ C)"
proof (induction sep B rule: split_on.induct)
  case (1 sep)
  show ?case by simp
next
  case (2 sep c cs)
  show ?case
  proof (cases "\<exists>r. split_on sep (c # cs) = [r]")
    case True
    then obtain r where r: "split_on sep (c # cs) = [r]" by blast
    then have "r = c # cs" by (rule split_on_single)
    with r show ?thesis by simp
  next
    case many: False
    show ?thesis
    proof (cases "prefix sep (c # cs)")
      case True
      then have len: "length sep - 1 \<le> length cs" by (auto dest: prefix_length_le)
      from True have pre: "prefix sep (c # cs @ C)" by (metis append_Cons prefix_prefix)
      have ih: "split_on sep (drop (length sep - 1) cs @ C) =
          butlast (split_on sep (drop (length sep - 1) cs)) @
          split_on sep (last (split_on sep (drop (length sep - 1) cs)) @ C)"
        using "2.IH"(1) [OF True] .
      show ?thesis
        using True pre len ih by (simp add: split_on_not_Nil)
    next
      case False
      obtain p ps where pp: "split_on sep cs = p # ps"
        using split_on_not_Nil [of sep cs] by (cases "split_on sep cs") auto
      from many False pp have ps: "ps \<noteq> []" by auto
      have np: "\<not> prefix sep (c # cs @ C)"
      proof
        assume "prefix sep (c # cs @ C)"
        then have "prefix sep ((c # cs) @ C)" by simp
        with False obtain us where us: "sep = (c # cs) @ us"
          unfolding prefix_append by blast
        with False have "us \<noteq> []" by auto
        with us have "length (c # cs) < length sep" by simp
        then have "split_on sep (c # cs) = [c # cs]" by (rule split_on_short)
        with many show False by blast
      qed
      have ih: "split_on sep (cs @ C) =
          butlast (split_on sep cs) @ split_on sep (last (split_on sep cs) @ C)"
        using "2.IH"(2) [OF False] .
      show ?thesis
        using False np pp ps ih by simp
    qed
  qed
qed

text \<open>The last piece holds no separator.\<close>

lemma split_on_last: "split_on sep (last (split_on sep s)) = [last (split_on sep s)]"
proof (induction sep s rule: split_on.induct)
  case (1 sep)
  show ?case by simp
next
  case (2 sep c cs)
  show ?case
  proof (cases "prefix sep (c # cs)")
    case True
    with "2.IH"(1) [OF True] show ?thesis by (simp add: split_on_not_Nil)
  next
    case False
    obtain p ps where pp: "split_on sep cs = p # ps"
      using split_on_not_Nil [of sep cs] by (cases "split_on sep cs") auto
    show ?thesis
    proof (cases "ps = []")
      case True
      with pp have "p = cs" by (simp add: split_on_single)
      with True pp False show ?thesis by simp
    next
      case ne: False
      with pp False "2.IH"(2) [OF False] show ?thesis by simp
    qed
  qed
qed

section \<open>Properties of the frame decoder\<close>

lemma nn_not_Nil: "ustr ''\<newline>\<newline>'' \<noteq> []"
  by (simp add: ustr_def)

lemma split_nn: "split s (ustr ''\<newline>\<newline>'') = split_on (ustr ''\<newline>\<newline>'') s"
  by (simp add: split_def nn_not_Nil)

lemma process_parts_sentinel:
  "is_sentinel f \<Longrightarrow> process_parts (f # fs) evs = evs @ [done_event]"
  by (simp add: is_sentinel_def split: option.splits)

lemma process_parts_parse_throws:
  "parse_throws f \<Longrightarrow> process_parts (f # fs) evs = process_parts fs evs"
  by (simp add: parse_throws_def split: option.splits)

text \<open>Frames before which no sentinel stands are processed one batch after the other.\<close>

lemma process_parts_append:
  "\<not> list_ex is_sentinel fs1 \<Longrightarrow>
     process_parts (fs1 @ fs2) evs = process_parts fs2 (process_parts fs1 evs)"
proof (induction fs1 arbitrary: evs)
  case Nil
  show ?case by simp
next
  case (Cons f fs1)
  then have nf: "\<not> is_sentinel f" and rest: "\<not> list_ex is_sentinel fs1" by simp_all
  show ?case
  proof (cases "data_line f")
    case None
    with Cons.IH [OF rest] show ?thesis by simp
  next
    case (Some line)
    with nf have nd: "strip_marker line \<noteq> ustr ''[DONE]''" by (simp add: is_sentinel_def)
    with Some Cons.IH [OF rest] show ?thesis by (simp split: option.splits)
  qed
qed

lemma read_loop_feed:
  "read_loop v cs e evs =
     ((case e of Closed \<Rightarrow> None | Failed msg \<Rightarrow> Some msg), snd (feed v cs evs),
      replicate (Suc (length cs)) ReaderRead)"
proof (induction cs arbitrary: v evs)
  case Nil
  show ?case by (cases e) simp_all
next
  case (Cons bs cs)
  show ?case by (simp add: Cons.IH case_prod_beta)
qed

text \<open>
  Feeding chunks whose bytes together are \<open>bs\<close>, from a buffer that holds no blank line:
  as long as no frame but the last completed carries the sentinel, the events are those
  of all the frames \<open>bs\<close> completes, in order, and the variables end as after one chunk.
\<close>

lemma feed_closed_form:
  assumes "split_on (ustr ''\<newline>\<newline>'') (buffer v) = [buffer v]"
    and "\<not> list_ex is_sentinel
           (butlast (butlast (split_on (ustr ''\<newline>\<newline>'')
              (buffer v @ snd (decode (decoder v) (concat cs))))))"
  shows "feed v cs evs =
     (\<lparr>decoder = fst (decode (decoder v) (concat cs)),
       buffer = last (split_on (ustr ''\<newline>\<newline>'') (buffer v @ snd (decode (decoder v) (concat cs))))\<rparr>,
      process_parts
        (butlast (split_on (ustr ''\<newline>\<newline>'') (buffer v @ snd (decode (decoder v) (concat cs)))))
        evs)"
  using assms
proof (induction cs arbitrary: v evs)
  case Nil
  then show ?case by (simp add: decode_Nil)
next
  case (Cons c cs)
  let ?nn = "ustr ''\<newline>\<newline>''"
  define d1 where "d1 = fst (decode (decoder v) c)"
  define t1 where "t1 = snd (decode (decoder v) c)"
  define t2 where "t2 = snd (decode d1 (concat cs))"
  define parts1 where "parts1 = split_on ?nn (buffer v @ t1)"
  define parts2 where "parts2 = split_on ?nn (last parts1 @ t2)"
  define v1 where "v1 = \<lparr>decoder = d1, buffer = last parts1\<rparr>"
  have ne1: "parts1 \<noteq> []" and ne2: "parts2 \<noteq> []"
    by (simp_all add: parts1_def parts2_def split_on_not_Nil)
  have step: "read_chunk v c evs = (v1, process_parts (butlast parts1) evs)"
    by (simp add: read_chunk_def case_prod_beta Let_def split_nn v1_def d1_def t1_def parts1_def
        split_on_not_Nil)
  have dec: "decode (decoder v) (c @ concat cs) =
      (fst (decode d1 (concat cs)), t1 @ t2)"
    by (simp add: decode_append d1_def t1_def t2_def)
  have whole: "split_on ?nn (buffer v @ t1 @ t2) = butlast parts1 @ parts2"
    using split_on_append [of ?nn "buffer v @ t1" t2] by (simp add: parts1_def parts2_def)
  have bl: "butlast (butlast parts1 @ parts2) = butlast parts1 @ butlast parts2"
    using ne2 by (simp add: butlast_append)
  have la: "last (butlast parts1 @ parts2) = last parts2"
    using ne2 by simp
  have buf1: "split_on ?nn (buffer v1) = [buffer v1]"
    by (simp add: v1_def parts1_def split_on_last)
  from Cons.prems(2) have nosent:
    "\<not> list_ex is_sentinel (butlast (butlast parts1 @ butlast parts2))"
    by (simp add: dec whole bl)
  show ?case
  proof (cases "butlast parts2 = []")
    case True
    have "feed v1 cs (process_parts (butlast parts1) evs) =
        (\<lparr>decoder = fst (decode d1 (concat cs)), buffer = last parts2\<rparr>,
         process_parts (butlast parts2) (process_parts (butlast parts1) evs))"
      using Cons.IH [of v1 "process_parts (butlast parts1) evs"] buf1 True
      by (simp add: v1_def parts2_def t2_def)
    then show ?thesis
      by (simp add: step dec whole bl la True)
  next
    case False
    with nosent have n1: "\<not> list_ex is_sentinel (butlast parts1)"
      and n2: "\<not> list_ex is_sentinel (butlast (butlast parts2))"
      by (simp_all add: butlast_append)
    have "feed v1 cs (process_parts (butlast parts1) evs) =
        (\<lparr>decoder = fst (decode d1 (concat cs)), buffer = last parts2\<rparr>,
         process_parts (butlast parts2) (process_parts (butlast parts1) evs))"
      using Cons.IH [of v1 "process_parts (butlast parts1) evs"] buf1 n2
      by (simp add: v1_def parts2_def t2_def)
    then show ?thesis
      by (simp add: step dec whole bl la process_parts_append [OF n1])
  qed
qed

section \<open>The claims about the frame decoder\<close>

lemma ustr_Nil: "ustr [] = []"
  by (simp add: ustr_def)

lemma ustr_Cons: "ustr (c # cs) = of_char c # ustr cs"
  by (simp add: ustr_def)

lemmas eval_simps =
  ustr_Nil ustr_Cons new_reader_def new_TextDecoder_def read_chunk_def decode_def utf8_handler_def
  utf8_lead_def reset_sequence_def utf16_units_def split_def data_line_def trim_def is_space_def
  startsWith_def strip_marker_def JSON_parse_def done_event_def error_event_def is_digit_def
  lex_number_def digits_value_def hex_digit_def escape_char_def Let_def

text \<open>
  C9. Feeding the chunk \<open>data: {"type":"status","value":"hi"}\<close> and then the chunk
  \<open>data: [DONE]\<close>, each closed by a blank line, to a fresh reader gives exactly the
  events \<open>{type: status, value: "hi"}\<close> and \<open>{type: done}\<close>, in this order, and
  nothing is thrown.
\<close>

theorem scenario_status_then_done:
  "read_loop new_reader
     [''data: {\"type\":\"status\",\"value\":\"hi\"}\<newline>\<newline>'',
      ''data: [DONE]\<newline>\<newline>''] Closed [] =
   (None,
    [JObject [(ustr ''type'', JString (ustr ''status'')), (ustr ''value'', JString (ustr ''hi''))],
     JObject [(ustr ''type'', JString (ustr ''done''))]],
    [ReaderRead, ReaderRead, ReaderRead])"
  by (simp add: eval_simps)

text \<open>
  C1. Sentinel cutoff: once a \<open>done\<close> event is produced, no further event is appended.
  The code does not keep to it. The \<open>break\<close> at the sentinel ends only the loop over
  the frames of the current chunk, and the reads go on: with \<open>data: [DONE]\<close> in one chunk
  and a status frame in the next, the status event is appended after the \<open>done\<close> event;
  and a read rejected after the sentinel appends an \<open>error\<close> event after it.
\<close>

theorem event_after_done_in_later_chunk:
  "read_loop new_reader
     [''data: [DONE]\<newline>\<newline>'',
      ''data: {\"type\":\"status\",\"value\":\"hi\"}\<newline>\<newline>''] Closed [] =
   (None,
    [JObject [(ustr ''type'', JString (ustr ''done''))],
     JObject [(ustr ''type'', JString (ustr ''status'')), (ustr ''value'', JString (ustr ''hi''))]],
    [ReaderRead, ReaderRead, ReaderRead]) \<and>
   events (fst (startAgent \<lparr>prompt = ustr ''why'', streaming = False, events = []\<rparr>
     (Response True (Some \<lparr>chunks = [''data: [DONE]\<newline>\<newline>''],
        ending = Failed (ustr ''network error'')\<rparr>)))) =
   [JObject [(ustr ''type'', JString (ustr ''done''))],
    JObject [(ustr ''type'', JString (ustr ''error'')),
             (ustr ''value'', JString (ustr ''network error''))]]"
  by (simp add: startAgent_def catch_error_def eval_simps)






section \<open>The claims about the stream session\<close>

text \<open>
  The events of chunks fed to a fresh reader, for a sentinel-terminated stream: those
  of the complete frames of the whole text.
\<close>

lemma feed_events:
  assumes "sentinel_terminated (concat cs)"
  shows "snd (feed new_reader cs evs) = process_parts (frames_of (stream_text (concat cs))) evs"
proof -
  let ?nn = "ustr ''\<newline>\<newline>''"
  have buf: "split_on ?nn (buffer new_reader) = [buffer new_reader]"
    by (simp add: new_reader_def)
  have ns: "\<not> list_ex is_sentinel
      (butlast (butlast (split_on ?nn
         (buffer new_reader @ snd (decode (decoder new_reader) (concat cs))))))"
    using assms
    by (simp add: sentinel_terminated_def frames_of_def stream_text_def split_nn new_reader_def)
  show ?thesis
    unfolding feed_closed_form [OF buf ns]
    by (simp add: frames_of_def stream_text_def split_nn new_reader_def)
qed

text \<open>
  C7. A response that is not usable as a stream (\<open>res.ok\<close> false, or no body): the run
  ends with the event log holding exactly one event, the object
  \<open>{type: "error", value: "Failed to start stream"}\<close>, the streaming flag cleared, and the
  request as its only effect: no read of the body.
\<close>

theorem unusable_response:
  assumes "trim (prompt st) \<noteq> []" and "\<not> ok \<or> body = None"
  shows "startAgent st (Response ok body) =
     (st\<lparr>events := [JObject [(ustr ''type'', JString (ustr ''error'')),
                  (ustr ''value'', JString (ustr ''Failed to start stream''))]], streaming := False\<rparr>,
      [FetchAgent (prompt st) 5])"
  using assms
  by (auto simp: startAgent_def catch_error_def error_event_def Let_def split: option.splits)

theorem unusable_response_witness:
  "trim (ustr ''why'') \<noteq> [] \<and>
   startAgent \<lparr>prompt = ustr ''why'', streaming = False, events = [JNull]\<rparr>
     (Response False (Some \<lparr>chunks = [''data: [DONE]\<newline>\<newline>''], ending = Closed\<rparr>)) =
     (\<lparr>prompt = ustr ''why'', streaming = False,
       events = [JObject [(ustr ''type'', JString (ustr ''error'')),
                  (ustr ''value'', JString (ustr ''Failed to start stream''))]]\<rparr>,
      [FetchAgent (ustr ''why'') 5]) \<and>
   startAgent \<lparr>prompt = ustr ''why'', streaming = False, events = [JNull]\<rparr>
     (Response True None) =
     (\<lparr>prompt = ustr ''why'', streaming = False,
       events = [JObject [(ustr ''type'', JString (ustr ''error'')),
                  (ustr ''value'', JString (ustr ''Failed to start stream''))]]\<rparr>,
      [FetchAgent (ustr ''why'') 5])"
proof -
  let ?st = "\<lparr>prompt = ustr ''why'', streaming = False, events = [JNull]\<rparr>"
  have p: "trim (prompt ?st) \<noteq> []"
    by (simp add: trim_def is_space_def ustr_Nil ustr_Cons)
  have a: "\<not> False \<or> Some \<lparr>chunks = [''data: [DONE]\<newline>\<newline>''], ending = Closed\<rparr> = None"
    by simp
  have b: "\<not> True \<or> (None :: body_stream option) = None"
    by simp
  from unusable_response [OF p a] unusable_response [OF p b] p show ?thesis by simp
qed

text \<open>
  C3 as stated (after a cancellation the log holds exactly the events of the frames
  processed, nothing more) does not hold: a cancellation rejects the pending read, and the
  \<open>catch\<close> block appends an \<open>error\<close> event. Cancelled after the first of two frames,
  the log holds the status event and the error event, not the status event alone.
\<close>

theorem cancellation_appends_error:
  "events (fst (startAgent \<lparr>prompt = ustr ''why'', streaming = False, events = []\<rparr>
      (Response True (Some \<lparr>chunks = [''data: {\"type\":\"status\",\"value\":\"hi\"}\<newline>\<newline>''],
         ending = Failed (ustr ''The user aborted a request.'')\<rparr>)))) =
     [JObject [(ustr ''type'', JString (ustr ''status'')), (ustr ''value'', JString (ustr ''hi''))],
      JObject [(ustr ''type'', JString (ustr ''error'')),
                  (ustr ''value'', JString (ustr ''The user aborted a request.''))]]
   \<and> events (fst (startAgent \<lparr>prompt = ustr ''why'', streaming = False, events = []\<rparr>
      (Response True (Some \<lparr>chunks = [''data: {\"type\":\"status\",\"value\":\"hi\"}\<newline>\<newline>''],
         ending = Failed (ustr ''The user aborted a request.'')\<rparr>)))) \<noteq>
     process_parts (frames_of (stream_text
       ''data: {\"type\":\"status\",\"value\":\"hi\"}\<newline>\<newline>'')) []"
  by (simp add: startAgent_def catch_error_def frames_of_def stream_text_def eval_simps)

text \<open>
  C3, amended. When the read after the chunks \<open>cs\<close> is rejected (the cancellation is
  seen there), the log holds the events of the complete frames of \<open>cs\<close>, in order,
  followed by one event \<open>{type: "error", value: msg}\<close> with the message of the
  rejection; the streaming flag is cleared (the code keeps no other session state), and
  no read follows the rejected one.
\<close>

theorem cancellation_truncation:
  assumes "trim (prompt st) \<noteq> []" and "sentinel_terminated (concat cs)"
  shows "startAgent st (Response True (Some \<lparr>chunks = cs, ending = Failed msg\<rparr>)) =
     (st\<lparr>events := process_parts (frames_of (stream_text (concat cs))) [] @ [JObject [(ustr ''type'', JString (ustr ''error'')),
                  (ustr ''value'', JString msg)]],
         streaming := False\<rparr>,
      FetchAgent (prompt st) 5 # replicate (Suc (length cs)) ReaderRead)"
  using assms(1)
  by (simp add: startAgent_def catch_error_def error_event_def Let_def read_loop_feed
      feed_events [OF assms(2)])

theorem cancellation_truncation_witness:
  "trim (ustr ''why'') \<noteq> [] \<and>
   sentinel_terminated (concat [''data: {\"type\":\"status\",'', ''\"value\":\"hi\"}\<newline>\<newline>data: {\"ty'']) \<and>
   startAgent \<lparr>prompt = ustr ''why'', streaming = False, events = [JNull]\<rparr>
     (Response True (Some \<lparr>chunks = [''data: {\"type\":\"status\",'', ''\"value\":\"hi\"}\<newline>\<newline>data: {\"ty''],
        ending = Failed (ustr ''The user aborted a request.'')\<rparr>)) =
     (\<lparr>prompt = ustr ''why'', streaming = False,
       events =
         [JObject [(ustr ''type'', JString (ustr ''status'')), (ustr ''value'', JString (ustr ''hi''))],
          JObject [(ustr ''type'', JString (ustr ''error'')),
                  (ustr ''value'', JString (ustr ''The user aborted a request.''))]]\<rparr>,
      [FetchAgent (ustr ''why'') 5, ReaderRead, ReaderRead, ReaderRead])"
proof -
  let ?st = "\<lparr>prompt = ustr ''why'', streaming = False, events = [JNull]\<rparr>"
  let ?cs = "[''data: {\"type\":\"status\",'', ''\"value\":\"hi\"}\<newline>\<newline>data: {\"ty'']"
  have p: "trim (prompt ?st) \<noteq> []"
    by (simp add: trim_def is_space_def ustr_Nil ustr_Cons)
  have h: "sentinel_terminated (concat ?cs)"
    by (simp add: sentinel_terminated_def frames_of_def stream_text_def is_sentinel_def eval_simps)
  have e: "process_parts (frames_of (stream_text (concat ?cs))) [] =
      [JObject [(ustr ''type'', JString (ustr ''status'')), (ustr ''value'', JString (ustr ''hi''))]]"
    by (simp add: frames_of_def stream_text_def eval_simps)
  from cancellation_truncation [OF p h, of "ustr ''The user aborted a request.''"] p h e
  show ?thesis by (simp add: numeral_eq_Suc)
qed

section \<open>Properties of the upload queue\<close>

lemma set_status_files: "map file (set_status f s ups) = map file ups"
  by (induction ups) (simp_all add: set_status_def)

lemma set_status_append: "set_status f s (xs @ ys) = set_status f s xs @ set_status f s ys"
  by (simp add: set_status_def)

lemma set_status_absent: "f \<notin> file ` set ups \<Longrightarrow> set_status f s ups = ups"
  by (induction ups) (auto simp: set_status_def)

lemma set_status_same:
  "set_status f s (\<lparr>file = f, status = t\<rparr> # ups) = \<lparr>file = f, status = s\<rparr> # set_status f s ups"
  by (simp add: set_status_def)

lemma upload_loop_files: "map file (fst (upload_loop name server i items ups)) = map file ups"
  by (induction items arbitrary: i ups) (simp_all add: Let_def case_prod_beta set_status_files)

lemma new_item_files: "map file (map new_item fs) = fs"
  by (induction fs) (simp_all add: new_item_def)

lemma new_item_statuses: "map status (map new_item fs) = replicate (length fs) Queued"
  by (induction fs) (simp_all add: new_item_def)

section \<open>The claims about the upload queue\<close>

text \<open>
  C5 as stated (the list shows the items in the order their files were submitted, also
  across calls) does not hold across calls: the new items go in front of the list, so
  after submitting file 1 and then file 2 the list shows file 2 first.
\<close>

theorem later_batch_first:
  "map file (fst (handleFiles (\<lambda>f. []) (\<lambda>i. Resolved True (Inr JNull)) [2]
      (fst (handleFiles (\<lambda>f. []) (\<lambda>i. Resolved True (Inr JNull)) [1] [])))) = [2, 1]
   \<and> map file (fst (handleFiles (\<lambda>f. []) (\<lambda>i. Resolved True (Inr JNull)) [2]
      (fst (handleFiles (\<lambda>f. []) (\<lambda>i. Resolved True (Inr JNull)) [1] [])))) \<noteq> [1, 2]"
  by (simp add: handleFiles_def new_item_def set_status_def outcome_status_def Let_def)

text \<open>
  C5, amended. One call creates one item per file, each with status \<open>queued\<close>, in the
  order of the files, and puts them in front of the items already in the list; the run
  changes no position. So the list shows each batch in submission order, the latest batch
  first.
\<close>

theorem enqueue_order:
  "(\<exists>steps. snd (handleFiles name server files prev) =
             SetUploads (map new_item files @ prev) # steps) \<and>
   map status (map new_item files) = replicate (length files) Queued \<and>
   map file (map new_item files) = files \<and>
   map file (fst (handleFiles name server files prev)) = files @ map file prev"
proof -
  have "map file (fst (handleFiles name server files prev)) = map file (map new_item files @ prev)"
    by (simp only: handleFiles_def Let_def case_prod_beta fst_conv upload_loop_files)
  then have "map file (fst (handleFiles name server files prev)) = files @ map file prev"
    by (simp only: map_append new_item_files)
  moreover have "\<exists>steps. snd (handleFiles name server files prev) =
      SetUploads (map new_item files @ prev) # steps"
    by (simp add: handleFiles_def Let_def case_prod_beta)
  ultimately show ?thesis
    using new_item_statuses [of files] new_item_files [of files] by blast
qed

lemma outcome_status_expected: "outcome_status r = expected_status r"
proof (cases r)
  case (Rejected msg)
  then show ?thesis by (simp add: outcome_status_def)
next
  case (Resolved ok body)
  then show ?thesis by (cases ok; cases body) (simp_all add: outcome_status_def)
qed

lemma expected_status_cases:
  "expected_status r =
     (case r of
        Rejected msg \<Rightarrow> Error
      | Resolved ok body \<Rightarrow>
          (case body of Inl msg \<Rightarrow> Error | Inr data \<Rightarrow> if ok then Done else Error))"
proof (cases r)
  case (Rejected msg)
  then show ?thesis by simp
next
  case (Resolved ok body)
  then show ?thesis by (cases ok; cases body) simp_all
qed

lemma queued_items: "map (\<lambda>g. \<lparr>file = g, status = Queued\<rparr>) fs = map new_item fs"
  by (induction fs) (simp_all add: new_item_def)

lemma settled_length: "length (settled server k fs) = length fs"
  by (induction fs arbitrary: k) simp_all

lemma settled_nth:
  "i < length fs \<Longrightarrow>
     settled server k fs ! i = \<lparr>file = fs ! i, status = expected_status (server (k + i))\<rparr>"
proof (induction fs arbitrary: k i)
  case Nil
  then show ?case by simp
next
  case (Cons f fs)
  show ?case
  proof (cases i)
    case 0
    then show ?thesis by simp
  next
    case (Suc j)
    with Cons.prems have "j < length fs" by simp
    then have "settled server (Suc k) fs ! j =
        \<lparr>file = fs ! j, status = expected_status (server (Suc k + j))\<rparr>"
      by (rule Cons.IH)
    with Suc show ?thesis by simp
  qed
qed

lemma upload_loop_sequential:
  assumes "distinct (map file fin @ fs)" and "set fs \<inter> file ` set prev = {}"
  shows "upload_loop name server i (map new_item fs) (fin @ map new_item fs @ prev) =
     (fin @ settled server i fs @ prev, sequential_steps name server i fin fs prev)"
  using assms
proof (induction fs arbitrary: fin i)
  case Nil
  show ?case by simp
next
  case (Cons f fs)
  let ?out = "expected_status (server i)"
  from Cons.prems have nf: "f \<notin> file ` set fin" and nr: "f \<notin> set fs" and np: "f \<notin> file ` set prev"
    by auto
  have nq: "f \<notin> file ` set (map new_item fs)"
    using nr new_item_files [of fs] by (metis set_map)
  have up: "\<And>s t. set_status f s (fin @ \<lparr>file = f, status = t\<rparr> # map new_item fs @ prev) =
      fin @ \<lparr>file = f, status = s\<rparr> # map new_item fs @ prev"
  proof -
    fix s t
    have q1: "set_status f s fin = fin" using nf by (rule set_status_absent)
    have q2: "set_status f s (map new_item fs) = map new_item fs" using nq by (rule set_status_absent)
    have q3: "set_status f s prev = prev" using np by (rule set_status_absent)
    show "set_status f s (fin @ \<lparr>file = f, status = t\<rparr> # map new_item fs @ prev) =
        fin @ \<lparr>file = f, status = s\<rparr> # map new_item fs @ prev"
      by (simp only: set_status_append set_status_same q1 q2 q3)
  qed
  have d: "distinct (map file (fin @ [\<lparr>file = f, status = ?out\<rparr>]) @ fs)"
    using Cons.prems(1) by auto
  have p: "set fs \<inter> file ` set prev = {}"
    using Cons.prems(2) by auto
  have ih: "upload_loop name server (Suc i) (map new_item fs)
      ((fin @ [\<lparr>file = f, status = ?out\<rparr>]) @ map new_item fs @ prev) =
     ((fin @ [\<lparr>file = f, status = ?out\<rparr>]) @ settled server (Suc i) fs @ prev,
      sequential_steps name server (Suc i) (fin @ [\<lparr>file = f, status = ?out\<rparr>]) fs prev)"
    using Cons.IH [OF d p] .
  have n: "new_item f = \<lparr>file = f, status = Queued\<rparr>"
    by (simp add: new_item_def)
  show ?case
    using ih by (simp add: Let_def n up outcome_status_expected queued_items)
qed

lemma posts_of_sequential_steps:
  "filter is_post (sequential_steps name server i fin fs prev) = map (\<lambda>f. Post f (name f)) fs"
  by (induction fs arbitrary: i fin) simp_all

text \<open>
  C6. For a batch of distinct file objects, none of them in the list already, the run
  is the strictly sequential one: per file, in the order of the batch, its item goes from
  \<open>queued\<close> to \<open>uploading\<close>, one request is posted, and when that request has come back
  the item goes to its final status, before the next file is touched. The requests posted
  are one per file, in the order of the batch (no retry). The final status of the item
  of the \<open>i\<close>-th file is \<open>error\<close> when its fetch was rejected (transport failure), when
  the response was not a success response, and when the body was no JSON; it is \<open>done\<close>
  when the response was a success response with a JSON body. It depends on the item's own
  request only: an item that ends in \<open>error\<close> keeps no later item from its own status.
\<close>

theorem upload_sequential:
  assumes "distinct files" and "set files \<inter> file ` set prev = {}"
  shows "handleFiles name server files prev =
     (settled server 0 files @ prev,
      SetUploads (map (\<lambda>g. \<lparr>file = g, status = Queued\<rparr>) files @ prev) #
      sequential_steps name server 0 [] files prev) \<and>
   filter is_post (snd (handleFiles name server files prev)) = map (\<lambda>f. Post f (name f)) files \<and>
   (\<forall>i < length files.
      file (fst (handleFiles name server files prev) ! i) = files ! i \<and>
      status (fst (handleFiles name server files prev) ! i) =
        (case server i of
           Rejected msg \<Rightarrow> Error
         | Resolved ok body \<Rightarrow>
             (case body of Inl msg \<Rightarrow> Error | Inr data \<Rightarrow> if ok then Done else Error)))"
proof -
  have d: "distinct (map file [] @ files)" using assms(1) by simp
  have "upload_loop name server 0 (map new_item files) ([] @ map new_item files @ prev) =
     ([] @ settled server 0 files @ prev, sequential_steps name server 0 [] files prev)"
    using upload_loop_sequential [OF d assms(2)] .
  then have h: "handleFiles name server files prev =
     (settled server 0 files @ prev,
      SetUploads (map (\<lambda>g. \<lparr>file = g, status = Queued\<rparr>) files @ prev) #
      sequential_steps name server 0 [] files prev)"
    by (simp add: handleFiles_def Let_def queued_items)
  have each: "\<forall>i < length files.
      file ((settled server 0 files @ prev) ! i) = files ! i \<and>
      status ((settled server 0 files @ prev) ! i) =
        (case server i of
           Rejected msg \<Rightarrow> Error
         | Resolved ok body \<Rightarrow>
             (case body of Inl msg \<Rightarrow> Error | Inr data \<Rightarrow> if ok then Done else Error))"
  proof (intro allI impI)
    fix i assume i: "i < length files"
    then have "(settled server 0 files @ prev) ! i = settled server 0 files ! i"
      by (simp add: nth_append settled_length)
    also have "\<dots> = \<lparr>file = files ! i, status = expected_status (server (0 + i))\<rparr>"
      using i by (rule settled_nth)
    finally have "(settled server 0 files @ prev) ! i =
        \<lparr>file = files ! i, status = expected_status (server i)\<rparr>"
      by simp
    then show "file ((settled server 0 files @ prev) ! i) = files ! i \<and>
      status ((settled server 0 files @ prev) ! i) =
        (case server i of
           Rejected msg \<Rightarrow> Error
         | Resolved ok body \<Rightarrow>
             (case body of Inl msg \<Rightarrow> Error | Inr data \<Rightarrow> if ok then Done else Error))"
      by (simp add: expected_status_cases [symmetric])
  qed
  show ?thesis
    unfolding h using each by (simp add: posts_of_sequential_steps)
qed

theorem upload_sequential_witness:
  "distinct [1, 2, 3, 4 :: nat] \<and>
   set [1, 2, 3, 4 :: nat] \<inter> file ` set [\<lparr>file = 9, status = Done\<rparr>] = {} \<and>
   fst (handleFiles (\<lambda>f. ustr ''doc'')
     (\<lambda>i. if i = 0 then Rejected (ustr ''Failed to fetch'')
          else if i = 1 then Resolved False (Inr JNull)
          else if i = 2 then Resolved True (Inl (ustr ''Unexpected token''))
          else Resolved True (Inr JNull))
     [1, 2, 3, 4] [\<lparr>file = 9, status = Done\<rparr>]) =
   [\<lparr>file = 1, status = Error\<rparr>, \<lparr>file = 2, status = Error\<rparr>, \<lparr>file = 3, status = Error\<rparr>,
    \<lparr>file = 4, status = Done\<rparr>, \<lparr>file = 9, status = Done\<rparr>] \<and>
   take 7 (snd (handleFiles (\<lambda>f. ustr ''doc'')
     (\<lambda>i. if i = 0 then Rejected (ustr ''Failed to fetch'')
          else if i = 1 then Resolved False (Inr JNull)
          else if i = 2 then Resolved True (Inl (ustr ''Unexpected token''))
          else Resolved True (Inr JNull))
     [1, 2, 3, 4] [\<lparr>file = 9, status = Done\<rparr>])) =
   [SetUploads [\<lparr>file = 1, status = Queued\<rparr>, \<lparr>file = 2, status = Queued\<rparr>,
                \<lparr>file = 3, status = Queued\<rparr>, \<lparr>file = 4, status = Queued\<rparr>,
                \<lparr>file = 9, status = Done\<rparr>],
    SetUploads [\<lparr>file = 1, status = Uploading\<rparr>, \<lparr>file = 2, status = Queued\<rparr>,
                \<lparr>file = 3, status = Queued\<rparr>, \<lparr>file = 4, status = Queued\<rparr>,
                \<lparr>file = 9, status = Done\<rparr>],
    Post 1 (ustr ''doc''),
    SetUploads [\<lparr>file = 1, status = Error\<rparr>, \<lparr>file = 2, status = Queued\<rparr>,
                \<lparr>file = 3, status = Queued\<rparr>, \<lparr>file = 4, status = Queued\<rparr>,
                \<lparr>file = 9, status = Done\<rparr>],
    SetUploads [\<lparr>file = 1, status = Error\<rparr>, \<lparr>file = 2, status = Uploading\<rparr>,
                \<lparr>file = 3, status = Queued\<rparr>, \<lparr>file = 4, status = Queued\<rparr>,
                \<lparr>file = 9, status = Done\<rparr>],
    Post 2 (ustr ''doc''),
    SetUploads [\<lparr>file = 1, status = Error\<rparr>, \<lparr>file = 2, status = Error\<rparr>,
                \<lparr>file = 3, status = Queued\<rparr>, \<lparr>file = 4, status = Queued\<rparr>,
                \<lparr>file = 9, status = Done\<rparr>]] \<and>
   filter is_post (snd (handleFiles (\<lambda>f. ustr ''doc'')
     (\<lambda>i. if i = 0 then Rejected (ustr ''Failed to fetch'')
          else if i = 1 then Resolved False (Inr JNull)
          else if i = 2 then Resolved True (Inl (ustr ''Unexpected token''))
          else Resolved True (Inr JNull))
     [1, 2, 3, 4] [\<lparr>file = 9, status = Done\<rparr>])) =
   [Post 1 (ustr ''doc''), Post 2 (ustr ''doc''), Post 3 (ustr ''doc''), Post 4 (ustr ''doc'')]"
proof -
  have d: "distinct [1, 2, 3, 4 :: nat]" by simp
  have p: "set [1, 2, 3, 4 :: nat] \<inter> file ` set [\<lparr>file = 9, status = Done\<rparr>] = {}" by simp
  from upload_sequential [OF d p, of "\<lambda>f. ustr ''doc''"
      "\<lambda>i. if i = 0 then Rejected (ustr ''Failed to fetch'')
          else if i = 1 then Resolved False (Inr JNull)
          else if i = 2 then Resolved True (Inl (ustr ''Unexpected token''))
          else Resolved True (Inr JNull)"] d p
  show ?thesis
    by simp
qed

lemma set_status_entry:
  assumes "u \<in> set (set_status f s ups)"
  obtains v where "v \<in> set ups" and "u = (if file v = f then v\<lparr>status := s\<rparr> else v)"
proof -
  from assms have "u \<in> (\<lambda>v. if file v = f then v\<lparr>status := s\<rparr> else v) ` set ups"
    by (simp only: set_status_def set_map)
  then show ?thesis using that by (elim imageE)
qed

lemma shared_status_set_status_same: "shared_status (set_status f s ups) f"
proof -
  have "\<forall>u \<in> set (set_status f s ups). file u \<noteq> f \<or> status u = s"
  proof
    fix u assume "u \<in> set (set_status f s ups)"
    then obtain v where "u = (if file v = f then v\<lparr>status := s\<rparr> else v)"
      by (rule set_status_entry)
    then show "file u \<noteq> f \<or> status u = s" by (cases "file v = f") simp_all
  qed
  then show ?thesis
    unfolding shared_status_def list_all_iff by (rule exI)
qed

lemma shared_status_set_status_other:
  assumes "g \<noteq> f" and "shared_status ups g"
  shows "shared_status (set_status f s ups) g"
proof -
  from assms(2) obtain t where t: "\<forall>u \<in> set ups. file u \<noteq> g \<or> status u = t"
    unfolding shared_status_def list_all_iff by (elim exE)
  have "\<forall>u \<in> set (set_status f s ups). file u \<noteq> g \<or> status u = t"
  proof
    fix u assume "u \<in> set (set_status f s ups)"
    then obtain v where v: "v \<in> set ups" and u: "u = (if file v = f then v\<lparr>status := s\<rparr> else v)"
      by (rule set_status_entry)
    show "file u \<noteq> g \<or> status u = t"
    proof (cases "file v = f")
      case True
      with u assms(1) show ?thesis by simp
    next
      case False
      with u have "u = v" by simp
      with v t show ?thesis by simp
    qed
  qed
  then show ?thesis
    unfolding shared_status_def list_all_iff by (rule exI)
qed

lemma shared_status_set_status:
  assumes "g = f \<or> shared_status ups g"
  shows "shared_status (set_status f s ups) g"
proof (cases "g = f")
  case True
  then show ?thesis by (simp only: shared_status_set_status_same)
next
  case False
  with assms have "shared_status ups g" by simp
  with False show ?thesis by (rule shared_status_set_status_other)
qed

lemma upload_loop_shared_status:
  assumes "g \<in> file ` set items \<or> shared_status ups g"
  shows "shared_status (fst (upload_loop name server i items ups)) g"
  using assms
proof (induction items arbitrary: i ups)
  case Nil
  then show ?case by simp
next
  case (Cons item items)
  let ?ups2 = "set_status (file item) (outcome_status (server i))
                 (set_status (file item) Uploading ups)"
  have "g \<in> file ` set items \<or> shared_status ?ups2 g"
  proof (cases "g \<in> file ` set items")
    case True
    then show ?thesis by simp
  next
    case False
    with Cons.prems have "g = file item \<or> shared_status ups g" by auto
    then have "shared_status (set_status (file item) Uploading ups) g"
      by (rule shared_status_set_status)
    then have "g = file item \<or> shared_status (set_status (file item) Uploading ups) g"
      by (rule disjI2)
    then have "shared_status ?ups2 g"
      by (rule shared_status_set_status)
    then show ?thesis by simp
  qed
  then have "shared_status (fst (upload_loop name server (Suc i) items ?ups2)) g"
    by (rule Cons.IH)
  then show ?case by (simp add: Let_def case_prod_beta)
qed

text \<open>
  C10. A status update matches the entries by the file object they hold: it changes the
  status of every entry whose file is the object of the item processed, and leaves every
  other entry as it is. So after a run, any two entries of the list that hold the same
  file object of the batch have the same status: duplicates carry no status of their own.
\<close>

theorem status_by_identity:
  "length (set_status f s ups) = length ups \<and>
   (\<forall>i < length ups.
      set_status f s ups ! i = (if file (ups ! i) = f then (ups ! i)\<lparr>status := s\<rparr> else ups ! i)) \<and>
   (\<forall>u \<in> set (fst (handleFiles name server files prev)).
    \<forall>u' \<in> set (fst (handleFiles name server files prev)).
      file u = file u' \<and> file u \<in> set files \<longrightarrow> status u = status u')"
proof (intro conjI ballI impI)
  show "length (set_status f s ups) = length ups"
    by (simp add: set_status_def)
  show "\<forall>i < length ups.
      set_status f s ups ! i = (if file (ups ! i) = f then (ups ! i)\<lparr>status := s\<rparr> else ups ! i)"
    by (simp add: set_status_def)
next
  fix u u'
  let ?final = "fst (handleFiles name server files prev)"
  assume u: "u \<in> set ?final" and u': "u' \<in> set ?final"
    and same: "file u = file u' \<and> file u \<in> set files"
  have "file u \<in> file ` set (map new_item files)"
    using same new_item_files [of files] by (metis set_map)
  then have "shared_status (fst (upload_loop name server 0 (map new_item files)
      (map new_item files @ prev))) (file u)"
    by (intro upload_loop_shared_status disjI1)
  then have "shared_status ?final (file u)"
    by (simp add: handleFiles_def Let_def case_prod_beta)
  then obtain t where "\<forall>x \<in> set ?final. file x \<noteq> file u \<or> status x = t"
    unfolding shared_status_def list_all_iff by blast
  with u u' same show "status u = status u'" by metis
qed

theorem status_by_identity_witness:
  "fst (handleFiles (\<lambda>f. ustr ''doc'')
     (\<lambda>i. if i = 0 then Resolved True (Inr JNull) else Rejected (ustr ''Failed to fetch''))
     [7, 7] [\<lparr>file = 8, status = Done\<rparr>]) =
     [\<lparr>file = 7, status = Error\<rparr>, \<lparr>file = 7, status = Error\<rparr>, \<lparr>file = 8, status = Done\<rparr>] \<and>
   set_status 7 Uploading
     [\<lparr>file = 7, status = Done\<rparr>, \<lparr>file = 8, status = Queued\<rparr>, \<lparr>file = 7, status = Queued\<rparr>] =
     [\<lparr>file = 7, status = Uploading\<rparr>, \<lparr>file = 8, status = Queued\<rparr>, \<lparr>file = 7, status = Uploading\<rparr>]"
  using status_by_identity [of 7 Uploading
      "[\<lparr>file = 7, status = Done\<rparr>, \<lparr>file = 8, status = Queued\<rparr>, \<lparr>file = 7, status = Queued\<rparr>]"
      "\<lambda>f. ustr ''doc''"
      "\<lambda>i. if i = 0 then Resolved True (Inr JNull) else Rejected (ustr ''Failed to fetch'')"
      "[7, 7]" "[\<lparr>file = 8, status = Done\<rparr>]"]
  by (simp add: handleFiles_def new_item_def set_status_def outcome_status_def Let_def)

section \<open>The claim about the query client\<close>

text \<open>
  C4. Any failure of the request/response cycle is to give an empty result sequence.
  The code does not keep to it for a non-success response: \<open>runQuery\<close> never reads
  \<open>res.ok\<close> (as \<open>startAgent\<close> and \<open>handleFiles\<close> do), so a response with a failure
  status whose body is JSON with a \<open>results\<close> member ends with those results shown and
  nothing logged.
\<close>

theorem non_success_response_shows_results:
  "runQuery (ustr ''cats'')
     (Resolved False
        (Inr (JObject [(ustr ''results'',
                JArray [JObject [(ustr ''score'', JNumber False 92 (- 2)),
                                 (ustr ''content'', JString (ustr ''cats are great''))]])])))
     \<lparr>queryLoading = False, results = JArray []\<rparr> =
   (\<lparr>queryLoading = False,
     results = JArray [JObject [(ustr ''score'', JNumber False 92 (- 2)),
                                (ustr ''content'', JString (ustr ''cats are great''))]]\<rparr>,
    [FetchQuery (ustr ''cats'') 5])"
  by (simp add: runQuery_def Let_def ustr_Nil ustr_Cons)

text \<open>
  What does hold: whatever the state before the call, each way into the \<open>catch\<close> block
  (a rejected fetch, a rejected \<open>res.json()\<close>, a body that is \<open>null\<close>) leaves the
  results empty and the loading flag cleared, with one console diagnostic.
\<close>

theorem thrown_query_leaves_results_empty:
  "runQuery q (Rejected msg) st =
     (\<lparr>queryLoading = False, results = JArray []\<rparr>,
      [FetchQuery q 5, ConsoleError (FetchFailed msg)]) \<and>
   runQuery q (Resolved ok (Inl msg)) st =
     (\<lparr>queryLoading = False, results = JArray []\<rparr>,
      [FetchQuery q 5, ConsoleError (JsonFailed msg)]) \<and>
   runQuery q (Resolved ok (Inr JNull)) st =
     (\<lparr>queryLoading = False, results = JArray []\<rparr>,
      [FetchQuery q 5, ConsoleError NullData])"
  by (simp add: runQuery_def Let_def)

section \<open>Further properties of the stream session and the query client\<close>

text \<open>
  No marker, no event: a frame without a line that starts with \<open>data:\<close> appends no
  event, and the loop over the frames of a chunk goes on as if it were absent.
\<close>

theorem no_marker_no_event:
  assumes "data_line f = None"
  shows "process_parts [f] evs = evs \<and>
         process_parts (fs1 @ f # fs2) evs = process_parts (fs1 @ fs2) evs"
proof
  show "process_parts [f] evs = evs"
    using assms by simp
  show "process_parts (fs1 @ f # fs2) evs = process_parts (fs1 @ fs2) evs"
  proof (induction fs1 arbitrary: evs)
    case Nil
    show ?case using assms by simp
  next
    case (Cons g fs1)
    show ?case
    proof (cases "data_line g")
      case None
      with Cons.IH show ?thesis by simp
    next
      case (Some line)
      with Cons.IH show ?thesis by (simp add: Let_def split: option.splits)
    qed
  qed
qed

theorem no_marker_no_event_witness:
  "data_line (ustr ''event: ping\<newline>id: 7'') = None \<and>
   process_parts [ustr ''event: ping\<newline>id: 7''] [done_event] = [done_event] \<and>
   process_parts [ustr ''data: 1'', ustr ''event: ping\<newline>id: 7'', ustr ''data: 2''] [] =
   process_parts [ustr ''data: 1'', ustr ''data: 2''] []"
proof -
  have h: "data_line (ustr ''event: ping\<newline>id: 7'') = None"
    by (simp add: eval_simps)
  from no_marker_no_event [OF h, of "[done_event]"]
    no_marker_no_event [OF h, of "[]" "[ustr ''data: 1'']" "[ustr ''data: 2'']"] h
  show ?thesis by simp
qed

text \<open>
  Within one chunk the sentinel cuts off: the frames before the first sentinel frame
  give their events, then \<open>done\<close> is appended, and the frames after it in the same chunk
  are never looked at.
\<close>

theorem sentinel_cuts_same_chunk:
  assumes "is_sentinel f" and "\<not> list_ex is_sentinel fs1"
  shows "process_parts (fs1 @ f # fs2) evs = process_parts fs1 evs @ [done_event]"
  using process_parts_append [OF assms(2), of "f # fs2" evs]
    process_parts_sentinel [OF assms(1), of fs2 "process_parts fs1 evs"]
  by simp

theorem sentinel_cuts_same_chunk_witness:
  "is_sentinel (ustr ''data: [DONE]'') \<and> \<not> list_ex is_sentinel [ustr ''data: 1''] \<and>
   process_parts [ustr ''data: 1'', ustr ''data: [DONE]'', ustr ''data: 2''] [] =
   [JNumber False 1 0, done_event]"
proof -
  have h: "is_sentinel (ustr ''data: [DONE]'')"
    by (simp add: is_sentinel_def eval_simps)
  have n: "\<not> list_ex is_sentinel [ustr ''data: 1'']"
    by (simp add: is_sentinel_def eval_simps)
  have e: "process_parts [ustr ''data: 1''] [] = [JNumber False 1 0]"
    by (simp add: eval_simps)
  from sentinel_cuts_same_chunk [OF h n, of "[ustr ''data: 2'']" "[]"] h n e
  show ?thesis by simp
qed

text \<open>
  A clean end of the data: the log holds the events of the complete frames and nothing
  else. No \<open>done\<close> event is made up when the sentinel never came, and the text after the
  last blank line is dropped with the buffer.
\<close>

theorem clean_end_adds_nothing:
  assumes "trim (prompt st) \<noteq> []" and "sentinel_terminated (concat cs)"
  shows "startAgent st (Response True (Some \<lparr>chunks = cs, ending = Closed\<rparr>)) =
     (st\<lparr>events := process_parts (frames_of (stream_text (concat cs))) [], streaming := False\<rparr>,
      FetchAgent (prompt st) 5 # replicate (Suc (length cs)) ReaderRead)"
  using assms(1)
  by (simp add: startAgent_def Let_def read_loop_feed feed_events [OF assms(2)])

theorem clean_end_adds_nothing_witness:
  "trim (ustr ''why'') \<noteq> [] \<and>
   sentinel_terminated (concat [''data: {\"type\":\"final\",\"answer\":\"42\"}\<newline>'',
      ''\<newline>data: {\"type\":\"status\",\"value\":\"lost\"}'']) \<and>
   fst (startAgent \<lparr>prompt = ustr ''why'', streaming = False, events = []\<rparr>
     (Response True (Some \<lparr>chunks = [''data: {\"type\":\"final\",\"answer\":\"42\"}\<newline>'',
        ''\<newline>data: {\"type\":\"status\",\"value\":\"lost\"}''], ending = Closed\<rparr>))) =
     \<lparr>prompt = ustr ''why'', streaming = False,
      events = [JObject [(ustr ''type'', JString (ustr ''final'')),
                         (ustr ''answer'', JString (ustr ''42''))]]\<rparr>"
proof -
  let ?st = "\<lparr>prompt = ustr ''why'', streaming = False, events = []\<rparr>"
  let ?cs = "[''data: {\"type\":\"final\",\"answer\":\"42\"}\<newline>'',
      ''\<newline>data: {\"type\":\"status\",\"value\":\"lost\"}'']"
  have p: "trim (prompt ?st) \<noteq> []"
    by (simp add: trim_def is_space_def ustr_Nil ustr_Cons)
  have h: "sentinel_terminated (concat ?cs)"
    by (simp add: sentinel_terminated_def frames_of_def stream_text_def is_sentinel_def eval_simps)
  have e: "process_parts (frames_of (stream_text (concat ?cs))) [] =
      [JObject [(ustr ''type'', JString (ustr ''final'')), (ustr ''answer'', JString (ustr ''42''))]]"
    by (simp add: frames_of_def stream_text_def eval_simps)
  from clean_end_adds_nothing [OF p h] p h e
  show ?thesis by simp
qed

text \<open>
  The query scenario: against a response whose body is
  \<open>{"results":[{"score":0.92,"content":"cats are great"}]}\<close>, \<open>runQuery("cats")\<close>
  ends with a one-element result sequence holding that score and that content.
\<close>

theorem query_scenario:
  "map_option
     (\<lambda>data. runQuery (ustr ''cats'') (Resolved True (Inr data))
        \<lparr>queryLoading = False, results = JArray []\<rparr>)
     (JSON_parse (ustr ''{\"results\":[{\"score\":0.92,\"content\":\"cats are great\"}]}'')) =
   Some (\<lparr>queryLoading = False,
          results = JArray [JObject [(ustr ''score'', JNumber False 92 (- 2)),
                                     (ustr ''content'', JString (ustr ''cats are great''))]]\<rparr>,
         [FetchQuery (ustr ''cats'') 5])"
  by (simp add: runQuery_def eval_simps)

lemma process_parts_acc: "process_parts fs evs = evs @ process_parts fs []"
proof (induction fs arbitrary: evs)
  case Nil
  show ?case by simp
next
  case (Cons f fs)
  show ?case
  proof (cases "data_line f")
    case None
    with Cons.IH [of evs] show ?thesis by simp
  next
    case (Some line)
    show ?thesis
    proof (cases "strip_marker line = ustr ''[DONE]''")
      case True
      with Some show ?thesis by simp
    next
      case nd: False
      show ?thesis
      proof (cases "JSON_parse (strip_marker line)")
        case None
        with Some nd Cons.IH [of evs] show ?thesis by simp
      next
        case (Some obj)
        with \<open>data_line f = Some line\<close> nd Cons.IH [of "evs @ [obj]"] Cons.IH [of "[obj]"]
        show ?thesis by simp
      qed
    qed
  qed
qed

lemma process_parts_prefix:
  "prefix (process_parts (fs1 @ fs2) evs) (process_parts fs2 (process_parts fs1 evs))"
proof (cases "list_ex is_sentinel fs1")
  case False
  then show ?thesis by (simp add: process_parts_append)
next
  case True
  then show ?thesis
  proof (induction fs1 arbitrary: evs)
    case Nil
    then show ?case by simp
  next
    case (Cons f fs1)
    show ?case
    proof (cases "is_sentinel f")
      case True
      have "process_parts ((f # fs1) @ fs2) evs = evs @ [done_event]"
        using process_parts_sentinel [OF True, of "fs1 @ fs2" evs] by simp
      moreover have "process_parts (f # fs1) evs = evs @ [done_event]"
        using True by (rule process_parts_sentinel)
      moreover have "process_parts fs2 (evs @ [done_event]) =
          (evs @ [done_event]) @ process_parts fs2 []"
        by (rule process_parts_acc)
      ultimately show ?thesis by simp
    next
      case nf: False
      with Cons.prems have rest: "list_ex is_sentinel fs1" by simp
      show ?thesis
      proof (cases "data_line f")
        case None
        with Cons.IH [OF rest, of evs] show ?thesis by simp
      next
        case (Some line)
        with nf have nd: "strip_marker line \<noteq> ustr ''[DONE]''" by (simp add: is_sentinel_def)
        show ?thesis
        proof (cases "JSON_parse (strip_marker line)")
          case None
          with Some nd Cons.IH [OF rest, of evs] show ?thesis by simp
        next
          case (Some obj)
          with \<open>data_line f = Some line\<close> nd Cons.IH [OF rest, of "evs @ [obj]"]
          show ?thesis by simp
        qed
      qed
    qed
  qed
qed

lemma feed_prefix:
  assumes "split_on (ustr ''\<newline>\<newline>'') (buffer v) = [buffer v]"
  shows "fst (feed v cs evs) =
     \<lparr>decoder = fst (decode (decoder v) (concat cs)),
      buffer = last (split_on (ustr ''\<newline>\<newline>'') (buffer v @ snd (decode (decoder v) (concat cs))))\<rparr> \<and>
   prefix
     (process_parts
        (butlast (split_on (ustr ''\<newline>\<newline>'') (buffer v @ snd (decode (decoder v) (concat cs)))))
        evs)
     (snd (feed v cs evs))"
  using assms
proof (induction cs arbitrary: v evs)
  case Nil
  then show ?case by (simp add: decode_Nil)
next
  case (Cons c cs)
  let ?nn = "ustr ''\<newline>\<newline>''"
  define d1 where "d1 = fst (decode (decoder v) c)"
  define t1 where "t1 = snd (decode (decoder v) c)"
  define t2 where "t2 = snd (decode d1 (concat cs))"
  define parts1 where "parts1 = split_on ?nn (buffer v @ t1)"
  define parts2 where "parts2 = split_on ?nn (last parts1 @ t2)"
  define v1 where "v1 = \<lparr>decoder = d1, buffer = last parts1\<rparr>"
  define evs1 where "evs1 = process_parts (butlast parts1) evs"
  have ne2: "parts2 \<noteq> []"
    by (simp add: parts2_def split_on_not_Nil)
  have step: "read_chunk v c evs = (v1, evs1)"
    by (simp add: read_chunk_def case_prod_beta Let_def split_nn v1_def d1_def t1_def parts1_def
        evs1_def split_on_not_Nil)
  have dec: "decode (decoder v) (c @ concat cs) = (fst (decode d1 (concat cs)), t1 @ t2)"
    by (simp add: decode_append d1_def t1_def t2_def)
  have whole: "split_on ?nn (buffer v @ t1 @ t2) = butlast parts1 @ parts2"
    using split_on_append [of ?nn "buffer v @ t1" t2] by (simp add: parts1_def parts2_def)
  have bl: "butlast (butlast parts1 @ parts2) = butlast parts1 @ butlast parts2"
    using ne2 by (simp add: butlast_append)
  have la: "last (butlast parts1 @ parts2) = last parts2"
    using ne2 by simp
  have buf1: "split_on ?nn (buffer v1) = [buffer v1]"
    by (simp add: v1_def parts1_def split_on_last)
  have ih: "fst (feed v1 cs evs1) = \<lparr>decoder = fst (decode d1 (concat cs)), buffer = last parts2\<rparr> \<and>
      prefix (process_parts (butlast parts2) evs1) (snd (feed v1 cs evs1))"
    using Cons.IH [OF buf1, of evs1] by (simp add: v1_def parts2_def t2_def)
  have "prefix (process_parts (butlast parts1 @ butlast parts2) evs)
      (process_parts (butlast parts2) evs1)"
    unfolding evs1_def by (rule process_parts_prefix)
  with ih have "prefix (process_parts (butlast parts1 @ butlast parts2) evs) (snd (feed v1 cs evs1))"
    by (meson prefix_order.order_trans)
  with ih show ?case
    by (simp add: step dec whole bl la)
qed

text \<open>
  For streams of any kind, sentinel-terminated or not: the events of the whole stream fed
  as one chunk are an initial segment of the events of the same bytes fed in any chunks.
  What chunking can add are events of frames that follow a sentinel frame.
\<close>

theorem whole_is_prefix_of_chunked:
  "prefix (fst (snd (read_loop new_reader [concat cs] e evs)))
          (fst (snd (read_loop new_reader cs e evs)))"
proof -
  let ?nn = "ustr ''\<newline>\<newline>''"
  have buf: "split_on ?nn (buffer new_reader) = [buffer new_reader]"
    by (simp add: new_reader_def)
  have "snd (feed new_reader [concat cs] evs) =
      process_parts (butlast (split_on ?nn
        (buffer new_reader @ snd (decode (decoder new_reader) (concat cs))))) evs"
    by (simp add: read_chunk_def case_prod_beta Let_def split_nn)
  with feed_prefix [OF buf, of cs evs] show ?thesis
    by (simp add: read_loop_feed)
qed

text \<open>
  The decoder reassembles a character split between two chunks: the text of two chunks
  decoded one after the other, the second from the state the first left, is the text of
  their bytes decoded at once.
\<close>

theorem decoding_split_invariant:
  "snd (decode new_TextDecoder (as @ bs)) =
     snd (decode new_TextDecoder as) @ snd (decode (fst (decode new_TextDecoder as)) bs) \<and>
   snd (decode new_TextDecoder [CHR 0xE2, CHR 0x82]) = [] \<and>
   snd (decode (fst (decode new_TextDecoder [CHR 0xE2, CHR 0x82])) [CHR 0xAC]) = [0x20AC]"
  by (simp add: decode_append) (simp add: eval_simps)

lemma process_parts_filter_throws:
  "process_parts fs evs = process_parts (filter (\<lambda>f. \<not> parse_throws f) fs) evs"
proof (induction fs arbitrary: evs)
  case Nil
  show ?case by simp
next
  case (Cons f fs)
  show ?case
  proof (cases "parse_throws f")
    case True
    with Cons.IH [of evs] process_parts_parse_throws [OF True, of fs evs] show ?thesis by simp
  next
    case False
    show ?thesis
    proof (cases "data_line f")
      case None
      with False Cons.IH [of evs] show ?thesis by simp
    next
      case (Some line)
      with False Cons.IH show ?thesis
        by (simp add: parse_throws_def Let_def split: option.splits)
    qed
  qed
qed

text \<open>
  Payloads that are no JSON and the stream as a whole: for a sentinel-terminated stream,
  fed in any chunks, the events are those of its complete frames with every frame left
  out on whose payload \<open>JSON.parse\<close> throws. Such a frame changes nothing for the frames
  after it, in its own chunk or in a later one.
\<close>

theorem unparsable_frames_drop_out:
  assumes "sentinel_terminated (concat cs)"
  shows "fst (snd (read_loop new_reader cs e evs)) =
     process_parts (filter (\<lambda>f. \<not> parse_throws f) (frames_of (stream_text (concat cs)))) evs"
  using feed_events [OF assms, of evs]
    process_parts_filter_throws [of "frames_of (stream_text (concat cs))" evs]
  by (simp add: read_loop_feed)

end
